theory Spec2Isabelle
  imports Complex_Main "HOL-Library.Multiset" "HOL-Library.Product_Lexorder"
begin

section \<open>JavaScript numbers\<close>

text \<open>
  The engine of \<^verbatim>\<open>src/App.js\<close> computes on JavaScript numbers. A number is modelled as a
  finite value, one of the two infinities, or NaN. The special values follow IEEE 754 as
  ECMAScript prescribes it. The operations \<open>+ - * /\<close> of this section are exact on finite
  values; the operations rounded to binary64, with overflow to an infinity, follow in the
  section on binary64 arithmetic, and the statistics and the distribution are given with
  both. The sign of zero is not modelled (a zero divisor is taken as \<open>+0\<close>).
\<close>

datatype jsnum = is_Fin: Fin (the_fin: real) | PInf | NInf | NaN

instantiation jsnum :: "{plus, minus, uminus, times, inverse}"
begin

fun uminus_jsnum :: "jsnum \<Rightarrow> jsnum" where
  "uminus_jsnum (Fin a) = Fin (- a)"
| "uminus_jsnum PInf = NInf"
| "uminus_jsnum NInf = PInf"
| "uminus_jsnum NaN = NaN"

fun plus_jsnum :: "jsnum \<Rightarrow> jsnum \<Rightarrow> jsnum" where
  "plus_jsnum (Fin a) (Fin b) = Fin (a + b)"
| "plus_jsnum (Fin a) PInf = PInf"
| "plus_jsnum (Fin a) NInf = NInf"
| "plus_jsnum PInf (Fin b) = PInf"
| "plus_jsnum PInf PInf = PInf"
| "plus_jsnum PInf NInf = NaN"
| "plus_jsnum NInf (Fin b) = NInf"
| "plus_jsnum NInf PInf = NaN"
| "plus_jsnum NInf NInf = NInf"
| "plus_jsnum NaN y = NaN"
| "plus_jsnum x NaN = NaN"

definition minus_jsnum :: "jsnum \<Rightarrow> jsnum \<Rightarrow> jsnum" where
  "minus_jsnum x y = x + (- y)"

fun times_jsnum :: "jsnum \<Rightarrow> jsnum \<Rightarrow> jsnum" where
  "times_jsnum (Fin a) (Fin b) = Fin (a * b)"
| "times_jsnum (Fin a) PInf = (if 0 < a then PInf else if a < 0 then NInf else NaN)"
| "times_jsnum (Fin a) NInf = (if 0 < a then NInf else if a < 0 then PInf else NaN)"
| "times_jsnum PInf (Fin b) = (if 0 < b then PInf else if b < 0 then NInf else NaN)"
| "times_jsnum PInf PInf = PInf"
| "times_jsnum PInf NInf = NInf"
| "times_jsnum NInf (Fin b) = (if 0 < b then NInf else if b < 0 then PInf else NaN)"
| "times_jsnum NInf PInf = NInf"
| "times_jsnum NInf NInf = PInf"
| "times_jsnum NaN y = NaN"
| "times_jsnum x NaN = NaN"

fun divide_jsnum :: "jsnum \<Rightarrow> jsnum \<Rightarrow> jsnum" where
  "divide_jsnum (Fin a) (Fin b) =
     (if b = 0 then (if 0 < a then PInf else if a < 0 then NInf else NaN) else Fin (a / b))"
| "divide_jsnum (Fin a) PInf = Fin 0"
| "divide_jsnum (Fin a) NInf = Fin 0"
| "divide_jsnum PInf (Fin b) = (if 0 \<le> b then PInf else NInf)"
| "divide_jsnum NInf (Fin b) = (if 0 \<le> b then NInf else PInf)"
| "divide_jsnum PInf PInf = NaN"
| "divide_jsnum PInf NInf = NaN"
| "divide_jsnum NInf PInf = NaN"
| "divide_jsnum NInf NInf = NaN"
| "divide_jsnum NaN y = NaN"
| "divide_jsnum x NaN = NaN"

definition inverse_jsnum :: "jsnum \<Rightarrow> jsnum" where
  "inverse_jsnum x = divide (Fin 1) x"

instance ..

end

text \<open>The comparisons \<^verbatim>\<open>a > b\<close>, \<^verbatim>\<open>a < b\<close> and \<^verbatim>\<open>a <= b\<close>: false as soon as one side is NaN.\<close>

fun num_lt :: "jsnum \<Rightarrow> jsnum \<Rightarrow> bool" where
  "num_lt (Fin a) (Fin b) = (a < b)"
| "num_lt (Fin a) PInf = True"
| "num_lt NInf (Fin b) = True"
| "num_lt NInf PInf = True"
| "num_lt x y = False"

definition num_gt :: "jsnum \<Rightarrow> jsnum \<Rightarrow> bool" where
  "num_gt x y = num_lt y x"

definition num_le :: "jsnum \<Rightarrow> jsnum \<Rightarrow> bool" where
  "num_le x y = (x \<noteq> NaN \<and> y \<noteq> NaN \<and> \<not> num_lt y x)"

definition num_ge :: "jsnum \<Rightarrow> jsnum \<Rightarrow> bool" where
  "num_ge x y = num_le y x"

text \<open>\<^verbatim>\<open>Math.max\<close> and \<^verbatim>\<open>Math.min\<close> return NaN as soon as an argument is NaN.\<close>

definition Math_max :: "jsnum \<Rightarrow> jsnum \<Rightarrow> jsnum" where
  "Math_max x y = (if x = NaN \<or> y = NaN then NaN else if num_lt x y then y else x)"

definition Math_min :: "jsnum \<Rightarrow> jsnum \<Rightarrow> jsnum" where
  "Math_min x y = (if x = NaN \<or> y = NaN then NaN else if num_lt y x then y else x)"

text \<open>\<^verbatim>\<open>Math.max(...vals)\<close> and \<^verbatim>\<open>Math.min(...vals)\<close>: over no argument they are
  \<open>-Infinity\<close> and \<open>+Infinity\<close>.\<close>

definition Math_max_spread :: "jsnum list \<Rightarrow> jsnum" where
  "Math_max_spread vals = foldl Math_max NInf vals"

definition Math_min_spread :: "jsnum list \<Rightarrow> jsnum" where
  "Math_min_spread vals = foldl Math_min PInf vals"

fun Math_floor :: "jsnum \<Rightarrow> jsnum" where
  "Math_floor (Fin a) = Fin (of_int \<lfloor>a\<rfloor>)"
| "Math_floor x = x"

fun Math_sqrt :: "jsnum \<Rightarrow> jsnum" where
  "Math_sqrt (Fin a) = (if a < 0 then NaN else Fin (sqrt a))"
| "Math_sqrt PInf = PInf"
| "Math_sqrt x = NaN"

text \<open>\<^verbatim>\<open>Math.log(0)\<close> is \<open>-Infinity\<close>; HOL's \<open>ln 0\<close> is not used.\<close>

fun Math_log :: "jsnum \<Rightarrow> jsnum" where
  "Math_log (Fin a) = (if a < 0 then NaN else if a = 0 then NInf else Fin (ln a))"
| "Math_log PInf = PInf"
| "Math_log x = NaN"

fun Math_cos :: "jsnum \<Rightarrow> jsnum" where
  "Math_cos (Fin a) = Fin (cos a)"
| "Math_cos x = NaN"

text \<open>\<^verbatim>\<open>Math.pow(x, n)\<close> for a natural exponent; the source calls it with 2.\<close>

fun Math_pow :: "jsnum \<Rightarrow> nat \<Rightarrow> jsnum" where
  "Math_pow x 0 = Fin 1"
| "Math_pow x (Suc n) = x * Math_pow x n"

text \<open>
  \<^verbatim>\<open>Number(x.toFixed(1))\<close>: \<^verbatim>\<open>toFixed\<close> treats the sign apart, leaves a magnitude of
  \<open>10^21\<close> or more as it is, and otherwise picks the integer \<open>n\<close> with \<open>n / 10\<close> closest to
  the magnitude, the larger one of two.
\<close>

fun toFixed1 :: "jsnum \<Rightarrow> jsnum" where
  "toFixed1 (Fin a) =
     (if 10 ^ 21 \<le> \<bar>a\<bar> then Fin a
      else if a < 0 then Fin (- (of_int \<lfloor>(- a) * 10 + 1 / 2\<rfloor> / 10))
      else Fin (of_int \<lfloor>a * 10 + 1 / 2\<rfloor> / 10))"
| "toFixed1 x = x"

section \<open>Property lookup, errors, arrays\<close>

text \<open>
  The scenario tables are object literals indexed by the selector string. A lookup finds
  an own property, or a member inherited from \<^verbatim>\<open>Object.prototype\<close> (a function or an
  object, none of which has the fields the code reads), or nothing (\<^verbatim>\<open>undefined\<close>).
  Reading a property of \<^verbatim>\<open>undefined\<close> throws a TypeError; reading a missing property of
  an object gives \<^verbatim>\<open>undefined\<close>, which arithmetic turns into NaN.
\<close>

datatype error = TypeError

datatype 'a lookup = Own 'a | Inherited | Undefined

definition Object_prototype_keys :: "string list" where
  "Object_prototype_keys =
     [''constructor'', ''__proto__'', ''hasOwnProperty'', ''isPrototypeOf'',
      ''propertyIsEnumerable'', ''toLocaleString'', ''toString'', ''valueOf'',
      ''__defineGetter__'', ''__defineSetter__'', ''__lookupGetter__'', ''__lookupSetter__'']"

fun object_get :: "(string \<times> 'a) list \<Rightarrow> string \<Rightarrow> 'a lookup" where
  "object_get [] key = (if key \<in> set Object_prototype_keys then Inherited else Undefined)"
| "object_get ((k, v) # rest) key = (if key = k then Own v else object_get rest key)"

fun field :: "'a lookup \<Rightarrow> ('a \<Rightarrow> jsnum) \<Rightarrow> error + jsnum" where
  "field (Own obj) f = Inr (f obj)"
| "field Inherited f = Inr NaN"
| "field Undefined f = Inl TypeError"

text \<open>
  An array read \<^verbatim>\<open>xs[idx]\<close> with a number as index. Outside the array JavaScript gives
  \<^verbatim>\<open>undefined\<close>; it is written NaN here, the number that arithmetic makes of it.
\<close>

definition is_index :: "jsnum \<Rightarrow> nat \<Rightarrow> bool" where
  "is_index idx n = (case idx of Fin r \<Rightarrow> 0 \<le> r \<and> of_int \<lfloor>r\<rfloor> = r \<and> nat \<lfloor>r\<rfloor> < n | _ \<Rightarrow> False)"

definition to_index :: "jsnum \<Rightarrow> nat" where
  "to_index idx = (case idx of Fin r \<Rightarrow> nat \<lfloor>r\<rfloor> | _ \<Rightarrow> 0)"

definition arr_get :: "jsnum list \<Rightarrow> jsnum \<Rightarrow> jsnum" where
  "arr_get xs idx = (if is_index idx (length xs) then xs ! to_index idx else NaN)"

text \<open>\<^verbatim>\<open>xs.reduce(f)\<close> with no initial value throws a TypeError on an empty array.\<close>

fun reduce1 :: "('a \<Rightarrow> 'a \<Rightarrow> 'a) \<Rightarrow> 'a list \<Rightarrow> error + 'a" where
  "reduce1 f [] = Inl TypeError"
| "reduce1 f (x # xs) = Inr (foldl f x xs)"

text \<open>
  \<^verbatim>\<open>Array.prototype.sort\<close> with a comparator is stable; a comparator result that is NaN
  counts as 0. For a consistent comparator the result is the stable sorted permutation,
  which insertion from the right computes. (With NaN among the keys the comparator
  \<^verbatim>\<open>a.npv - b.npv\<close> is not consistent and the order is left to the implementation.)
\<close>

fun insert_cmp :: "('a \<Rightarrow> 'a \<Rightarrow> jsnum) \<Rightarrow> 'a \<Rightarrow> 'a list \<Rightarrow> 'a list" where
  "insert_cmp cmp x [] = [x]"
| "insert_cmp cmp x (y # ys) =
     (if num_lt (cmp y x) (Fin 0) then y # insert_cmp cmp x ys else x # y # ys)"

definition js_sort :: "('a \<Rightarrow> 'a \<Rightarrow> jsnum) \<Rightarrow> 'a list \<Rightarrow> 'a list" where
  "js_sort cmp xs = foldr (insert_cmp cmp) xs []"

section \<open>The simulations\<close>

record params =
  mean_p :: jsnum
  std_p :: jsnum
  ms_p :: jsnum

record sample =
  npv :: jsnum
  ms :: jsnum

definition params_table :: "(string \<times> params) list" where
  "params_table =
     [(''all'', \<lparr>mean_p = Fin 89.4, std_p = Fin 14.3, ms_p = Fin 0.749\<rparr>),
      (''conservative'', \<lparr>mean_p = Fin 74.2, std_p = Fin 8.5, ms_p = Fin 0.7\<rparr>),
      (''base'', \<lparr>mean_p = Fin 89.4, std_p = Fin 11.2, ms_p = Fin 0.749\<rparr>),
      (''optimistic'', \<lparr>mean_p = Fin 108.7, std_p = Fin 9.8, ms_p = Fin 0.82\<rparr>)]"

text \<open>The Box-Muller variate \<^verbatim>\<open>z\<close> of two draws \<^verbatim>\<open>u1\<close>, \<^verbatim>\<open>u2\<close> of \<^verbatim>\<open>Math.random()\<close>.\<close>

definition z_variate :: "real \<Rightarrow> real \<Rightarrow> jsnum" where
  "z_variate u1 u2 =
     Math_sqrt (Fin (- 2) * Math_log (Fin u1)) * Math_cos (Fin 2 * Fin pi * Fin u2)"

text \<open>One pass of the loop body, after the two draws.\<close>

definition draw_sample :: "params lookup \<Rightarrow> real \<Rightarrow> real \<Rightarrow> error + sample" where
  "draw_sample p u1 u2 =
     (let z = z_variate u1 u2 in
      case field p mean_p of Inl e \<Rightarrow> Inl e | Inr m \<Rightarrow>
      case field p std_p of Inl e \<Rightarrow> Inl e | Inr sd \<Rightarrow>
      case field p ms_p of Inl e \<Rightarrow> Inl e | Inr r \<Rightarrow>
        Inr \<lparr>npv = Math_max (Fin 50) (m + z * sd),
             ms = Math_max (Fin 0.5) (Math_min (Fin 0.95) (r + z * Fin 0.08))\<rparr>)"

text \<open>
  The loop \<^verbatim>\<open>for (let i = 0; i < 10000; i++)\<close>. \<open>random k\<close> is the value of the
  \<open>k\<close>-th call of \<^verbatim>\<open>Math.random()\<close> (counted from 0) in this run: pass \<open>i\<close> makes the
  calls \<open>2 * i\<close> and \<open>2 * i + 1\<close>.
\<close>

function simulations_loop ::
  "params lookup \<Rightarrow> (nat \<Rightarrow> real) \<Rightarrow> nat \<Rightarrow> sample list \<Rightarrow> error + sample list" where
  "simulations_loop p random i results =
     (if i < 10000 then
        (case draw_sample p (random (2 * i)) (random (2 * i + 1)) of
           Inl e \<Rightarrow> Inl e
         | Inr s \<Rightarrow> simulations_loop p random (Suc i) (results @ [s]))
      else Inr results)"
  by pat_completeness auto
termination
  by (relation "measure (\<lambda>(p, random, i, results). 10000 - i)") auto

definition simulations :: "string \<Rightarrow> (nat \<Rightarrow> real) \<Rightarrow> error + sample list" where
  "simulations scenario random =
     simulations_loop (object_get params_table scenario) random 0 []"

section \<open>The statistics\<close>

record summary =
  mean :: jsnum
  median :: jsnum
  p10 :: jsnum
  p90 :: jsnum
  min_v :: jsnum
  max_v :: jsnum
  std :: jsnum
  positive :: jsnum
  above80 :: jsnum
  avgMs :: jsnum
  msAbove75 :: jsnum

text \<open>
  Arrays are objects: \<^verbatim>\<open>sort\<close> changes the array it is called on. The store is the list
  of the sample arrays allocated so far, an array's address its position. The spread
  \<^verbatim>\<open>[...a]\<close> allocates a new array with the elements of \<^verbatim>\<open>a\<close>.
\<close>

type_synonym store = "sample list list"

definition array_spread :: "nat \<Rightarrow> store \<Rightarrow> nat \<times> store" where
  "array_spread a h = (length h, h @ [h ! a])"

definition array_sort :: "(sample \<Rightarrow> sample \<Rightarrow> jsnum) \<Rightarrow> nat \<Rightarrow> store \<Rightarrow> nat \<times> store" where
  "array_sort cmp a h = (a, h[a := js_sort cmp (h ! a)])"

definition js_of_nat :: "nat \<Rightarrow> jsnum" where
  "js_of_nat n = Fin (real n)"

text \<open>The fields of the returned object, from the contents of \<^verbatim>\<open>simulations\<close> and
  \<^verbatim>\<open>vals\<close>; the \<^verbatim>\<open>reduce\<close> of the mean is evaluated first and throws on no sample.\<close>

definition stats_fields :: "sample list \<Rightarrow> jsnum list \<Rightarrow> error + summary" where
  "stats_fields sims vals =
     (case reduce1 (+) vals of
        Inl e \<Rightarrow> Inl e
      | Inr tot \<Rightarrow>
          (let mean_v = tot / js_of_nat (length vals);
               std_v = Math_sqrt
                 (foldl (\<lambda>acc v. acc + Math_pow (v - mean_v) 2) (Fin 0) vals
                    / js_of_nat (length vals))
           in Inr \<lparr>mean = mean_v,
                   median = arr_get vals (Math_floor (js_of_nat (length vals) * Fin 0.5)),
                   p10 = arr_get vals (Math_floor (js_of_nat (length vals) * Fin 0.1)),
                   p90 = arr_get vals (Math_floor (js_of_nat (length vals) * Fin 0.9)),
                   min_v = Math_min_spread vals,
                   max_v = Math_max_spread vals,
                   std = std_v,
                   positive =
                     js_of_nat (length (filter (\<lambda>s. num_gt (npv s) (Fin 0)) sims))
                       / js_of_nat (length sims) * Fin 100,
                   above80 =
                     js_of_nat (length (filter (\<lambda>s. num_gt (npv s) (Fin 80)) sims))
                       / js_of_nat (length sims) * Fin 100,
                   avgMs =
                     foldl (\<lambda>acc s. acc + ms s) (Fin 0) sims
                       / js_of_nat (length sims) * Fin 100,
                   msAbove75 =
                     js_of_nat (length (filter (\<lambda>s. num_gt (ms s) (Fin 0.75)) sims))
                       / js_of_nat (length sims) * Fin 100\<rparr>))"

text \<open>\<^verbatim>\<open>stats\<close>, on the address of \<^verbatim>\<open>simulations\<close>: it returns the store it leaves.\<close>

definition stats :: "nat \<Rightarrow> store \<Rightarrow> (error + summary) \<times> store" where
  "stats simulations_ref h =
     (let (copy, h1) = array_spread simulations_ref h;
          (sorted_ref, h2) = array_sort (\<lambda>a b. npv a - npv b) copy h1;
          vals = map npv (h2 ! sorted_ref)
      in (stats_fields (h2 ! simulations_ref) vals, h2))"

section \<open>The distribution\<close>

record bin =
  bin_x :: jsnum
  bin_y :: jsnum

text \<open>
  \<^verbatim>\<open>dist[idx]++\<close> on the array of 40 counters. An index that is NaN, negative or not
  an integer names a property that is no element: the counters stay. (An index of 40 or
  more would extend the array; \<^verbatim>\<open>Math.min(bins - 1, ...)\<close> leaves none.)
\<close>

definition dist_incr :: "nat list \<Rightarrow> jsnum \<Rightarrow> nat list" where
  "dist_incr cs idx =
     (if is_index idx (length cs) then cs[to_index idx := cs ! to_index idx + 1] else cs)"

definition bin_index :: "summary \<Rightarrow> nat \<Rightarrow> jsnum \<Rightarrow> sample \<Rightarrow> jsnum" where
  "bin_index st bins bin_size s =
     Math_min (js_of_nat bins - Fin 1) (Math_floor ((npv s - min_v st) / bin_size))"

definition distribution :: "sample list \<Rightarrow> summary \<Rightarrow> error + bin list" where
  "distribution sims st =
     (let bins = 40;
          bin_size = (max_v st - min_v st) / js_of_nat bins;
          dist_v = foldl (\<lambda>d s. dist_incr d (bin_index st bins bin_size s))
                     (replicate bins 0) sims
      in Inr (filter (\<lambda>d. num_gt (bin_y d) (Fin 0))
           (map (\<lambda>(cnt, i).
                   \<lparr>bin_x = min_v st + (js_of_nat i + Fin 0.5) * bin_size,
                    bin_y = js_of_nat cnt / js_of_nat (length sims) * Fin 100\<rparr>)
              (zip dist_v [0..<length dist_v]))))"

section \<open>The trajectory\<close>

record point =
  year :: string
  expected :: jsnum
  p90_t :: jsnum
  p10_t :: jsnum

definition factors_table :: "(string \<times> jsnum list) list" where
  "factors_table =
     [(''all'', [Fin 0.15, Fin 0.28, Fin 0.42, Fin 0.58, Fin 0.75, Fin 0.88]),
      (''conservative'', [Fin 0.1, Fin 0.2, Fin 0.32, Fin 0.45, Fin 0.6, Fin 0.72]),
      (''base'', [Fin 0.15, Fin 0.28, Fin 0.42, Fin 0.58, Fin 0.75, Fin 0.88]),
      (''optimistic'', [Fin 0.2, Fin 0.38, Fin 0.55, Fin 0.72, Fin 0.88, Fin 1.05])]"

text \<open>\<^verbatim>\<open>factors[i]\<close>: a TypeError on \<^verbatim>\<open>undefined\<close>, \<^verbatim>\<open>undefined\<close> (in arithmetic, NaN)
  on an inherited member and beyond the end of the array.\<close>

fun element :: "jsnum list lookup \<Rightarrow> nat \<Rightarrow> error + jsnum" where
  "element (Own xs) i = Inr (if i < length xs then xs ! i else NaN)"
| "element Inherited i = Inr NaN"
| "element Undefined i = Inl TypeError"

text \<open>\<^verbatim>\<open>map\<close> with a callback that may throw: the first exception ends it.\<close>

fun map_throwing :: "('a \<Rightarrow> error + 'b) \<Rightarrow> 'a list \<Rightarrow> error + 'b list" where
  "map_throwing f [] = Inr []"
| "map_throwing f (x # xs) =
     (case f x of
        Inl e \<Rightarrow> Inl e
      | Inr y \<Rightarrow> (case map_throwing f xs of Inl e \<Rightarrow> Inl e | Inr ys \<Rightarrow> Inr (y # ys)))"

definition trajectory :: "string \<Rightarrow> summary \<Rightarrow> error + point list" where
  "trajectory scenario st =
     (let factors = object_get factors_table scenario in
      map_throwing
        (\<lambda>(yr, i).
           case element factors i of
             Inl e \<Rightarrow> Inl e
           | Inr f \<Rightarrow>
               Inr \<lparr>year = yr,
                    expected = toFixed1 (median st * f),
                    p90_t = toFixed1 (p90 st * f * Fin 1.05),
                    p10_t = toFixed1 (p10 st * f * Fin 0.95)\<rparr>)
        (zip [''2026'', ''2027'', ''2028'', ''2029'', ''2030'', ''2031''] [0..<6]))"

section \<open>The risk scatter\<close>

datatype risk_tier = Low | Med | High

record scatter_point =
  pt_x :: jsnum
  pt_y :: jsnum
  risk :: risk_tier

definition risk_of :: "jsnum \<Rightarrow> risk_tier" where
  "risk_of m = (if num_gt m (Fin 0.78) then Low else if num_gt m (Fin 0.7) then Med else High)"

definition scatter :: "sample list \<Rightarrow> scatter_point list" where
  "scatter sims =
     map (\<lambda>s. \<lparr>pt_x = toFixed1 (ms s * Fin 100), pt_y = toFixed1 (npv s), risk = risk_of (ms s)\<rparr>)
       (take 800 sims)"

section \<open>Binary64 arithmetic\<close>

text \<open>
  A finite result of an operation is rounded to the nearest number of binary64, a tie to
  the one with the even significand. Near \<open>x\<close> the numbers of binary64 are the integer
  multiples of \<open>ulp64 x = 2 ^ (e - 52)\<close>, where \<open>e\<close> is the exponent \<open>\<lfloor>log 2 \<bar>x\<bar>\<rfloor>\<close>, taken
  as \<open>-1022\<close> when it is less (the subnormal numbers are the multiples of \<open>2 ^ -1074\<close>).
  A rounded result of magnitude \<open>2 ^ 1024\<close> or more is an infinity.
\<close>

definition round_even :: "real \<Rightarrow> int" where
  "round_even y =
     (let f = \<lfloor>y\<rfloor>; r = y - of_int f
      in if r < 1 / 2 then f else if 1 / 2 < r then f + 1 else if even f then f else f + 1)"

definition exponent64 :: "real \<Rightarrow> int" where
  "exponent64 x = max \<lfloor>log 2 \<bar>x\<bar>\<rfloor> (- 1022)"

definition ulp64 :: "real \<Rightarrow> real" where
  "ulp64 x = 2 powr (of_int (exponent64 x - 52))"

definition round64 :: "real \<Rightarrow> real" where
  "round64 x = (if x = 0 then 0 else of_int (round_even (x / ulp64 x)) * ulp64 x)"

definition overflow64 :: real where
  "overflow64 = 2 ^ 1024"

definition binary64 :: "real \<Rightarrow> jsnum" where
  "binary64 x =
     (let y = round64 x
      in if overflow64 \<le> y then PInf else if y \<le> - overflow64 then NInf else Fin y)"

text \<open>
  The operations on numbers with the finite result rounded by \<open>rnd\<close>; on the special
  values they are the operations above. With \<open>rnd = binary64\<close> they are the operations of
  the engine, with \<open>rnd = Fin\<close> those of exact arithmetic (lemma \<open>fl_exact\<close>).
  \<^verbatim>\<open>Math.pow(x, 2)\<close> is taken as the rounded product \<open>x * x\<close> (ECMAScript leaves its
  last digit to the implementation; no statement below depends on it).
\<close>

fun fl_add :: "(real \<Rightarrow> jsnum) \<Rightarrow> jsnum \<Rightarrow> jsnum \<Rightarrow> jsnum" where
  "fl_add rnd (Fin a) (Fin b) = rnd (a + b)"
| "fl_add rnd x y = x + y"

definition fl_sub :: "(real \<Rightarrow> jsnum) \<Rightarrow> jsnum \<Rightarrow> jsnum \<Rightarrow> jsnum" where
  "fl_sub rnd x y = fl_add rnd x (- y)"

fun fl_mul :: "(real \<Rightarrow> jsnum) \<Rightarrow> jsnum \<Rightarrow> jsnum \<Rightarrow> jsnum" where
  "fl_mul rnd (Fin a) (Fin b) = rnd (a * b)"
| "fl_mul rnd x y = x * y"

fun fl_div :: "(real \<Rightarrow> jsnum) \<Rightarrow> jsnum \<Rightarrow> jsnum \<Rightarrow> jsnum" where
  "fl_div rnd (Fin a) (Fin b) = (if b = 0 then Fin a / Fin b else rnd (a / b))"
| "fl_div rnd x y = x / y"

fun fl_sqrt :: "(real \<Rightarrow> jsnum) \<Rightarrow> jsnum \<Rightarrow> jsnum" where
  "fl_sqrt rnd (Fin a) = (if a < 0 then NaN else rnd (sqrt a))"
| "fl_sqrt rnd x = Math_sqrt x"

fun fl_pow :: "(real \<Rightarrow> jsnum) \<Rightarrow> jsnum \<Rightarrow> nat \<Rightarrow> jsnum" where
  "fl_pow rnd x 0 = Fin 1"
| "fl_pow rnd x (Suc n) = fl_mul rnd x (fl_pow rnd x n)"

text \<open>
  The statistics and the distribution with every operation rounded. A decimal literal
  denotes its rounded value (\<open>rnd 0.5\<close>); the numbers of samples and the bin indices are
  integers below \<open>2 ^ 32\<close>, which binary64 holds. With \<open>rnd = Fin\<close> these are
  \<open>stats_fields\<close>, \<open>stats\<close>, \<open>bin_index\<close> and \<open>distribution\<close> (lemmas \<open>stats_fl_exact\<close>,
  \<open>distribution_fl_exact\<close>).
\<close>

definition stats_fields_fl ::
  "(real \<Rightarrow> jsnum) \<Rightarrow> sample list \<Rightarrow> jsnum list \<Rightarrow> error + summary" where
  "stats_fields_fl rnd sims vals =
     (case reduce1 (fl_add rnd) vals of
        Inl e \<Rightarrow> Inl e
      | Inr tot \<Rightarrow>
          (let mean_v = fl_div rnd tot (js_of_nat (length vals));
               std_v = fl_sqrt rnd
                 (fl_div rnd
                    (foldl (\<lambda>acc v. fl_add rnd acc (fl_pow rnd (fl_sub rnd v mean_v) 2))
                       (Fin 0) vals)
                    (js_of_nat (length vals)))
           in Inr \<lparr>mean = mean_v,
                   median = arr_get vals (Math_floor (fl_mul rnd (js_of_nat (length vals)) (rnd 0.5))),
                   p10 = arr_get vals (Math_floor (fl_mul rnd (js_of_nat (length vals)) (rnd 0.1))),
                   p90 = arr_get vals (Math_floor (fl_mul rnd (js_of_nat (length vals)) (rnd 0.9))),
                   min_v = Math_min_spread vals,
                   max_v = Math_max_spread vals,
                   std = std_v,
                   positive =
                     fl_mul rnd
                       (fl_div rnd
                          (js_of_nat (length (filter (\<lambda>s. num_gt (npv s) (Fin 0)) sims)))
                          (js_of_nat (length sims)))
                       (Fin 100),
                   above80 =
                     fl_mul rnd
                       (fl_div rnd
                          (js_of_nat (length (filter (\<lambda>s. num_gt (npv s) (Fin 80)) sims)))
                          (js_of_nat (length sims)))
                       (Fin 100),
                   avgMs =
                     fl_mul rnd
                       (fl_div rnd
                          (foldl (\<lambda>acc s. fl_add rnd acc (ms s)) (Fin 0) sims)
                          (js_of_nat (length sims)))
                       (Fin 100),
                   msAbove75 =
                     fl_mul rnd
                       (fl_div rnd
                          (js_of_nat (length (filter (\<lambda>s. num_gt (ms s) (rnd 0.75)) sims)))
                          (js_of_nat (length sims)))
                       (Fin 100)\<rparr>))"

definition stats_fl :: "(real \<Rightarrow> jsnum) \<Rightarrow> nat \<Rightarrow> store \<Rightarrow> (error + summary) \<times> store" where
  "stats_fl rnd simulations_ref h =
     (let (copy, h1) = array_spread simulations_ref h;
          (sorted_ref, h2) = array_sort (\<lambda>a b. fl_sub rnd (npv a) (npv b)) copy h1;
          vals = map npv (h2 ! sorted_ref)
      in (stats_fields_fl rnd (h2 ! simulations_ref) vals, h2))"

definition bin_index_fl ::
  "(real \<Rightarrow> jsnum) \<Rightarrow> summary \<Rightarrow> nat \<Rightarrow> jsnum \<Rightarrow> sample \<Rightarrow> jsnum" where
  "bin_index_fl rnd st bins bin_size s =
     Math_min (fl_sub rnd (js_of_nat bins) (Fin 1))
       (Math_floor (fl_div rnd (fl_sub rnd (npv s) (min_v st)) bin_size))"

definition distribution_fl :: "(real \<Rightarrow> jsnum) \<Rightarrow> sample list \<Rightarrow> summary \<Rightarrow> error + bin list" where
  "distribution_fl rnd sims st =
     (let bins = 40;
          bin_size = fl_div rnd (fl_sub rnd (max_v st) (min_v st)) (js_of_nat bins);
          dist_v = foldl (\<lambda>d s. dist_incr d (bin_index_fl rnd st bins bin_size s))
                     (replicate bins 0) sims
      in Inr (filter (\<lambda>d. num_gt (bin_y d) (Fin 0))
           (map (\<lambda>(cnt, i).
                   \<lparr>bin_x = fl_add rnd (min_v st)
                              (fl_mul rnd (fl_add rnd (js_of_nat i) (rnd 0.5)) bin_size),
                    bin_y = fl_mul rnd (fl_div rnd (js_of_nat cnt) (js_of_nat (length sims)))
                              (Fin 100)\<rparr>)
              (zip dist_v [0..<length dist_v]))))"

section \<open>Notions used in the statements\<close>

text \<open>The sample that one pass of the loop pushes, from the parameters and the variate.\<close>

definition mk_sample :: "params \<Rightarrow> jsnum \<Rightarrow> sample" where
  "mk_sample q z =
     \<lparr>npv = Math_max (Fin 50) (mean_p q + z * std_p q),
      ms = Math_max (Fin 0.5) (Math_min (Fin 0.95) (ms_p q + z * Fin 0.08))\<rparr>"

text \<open>The selector values of the \<^verbatim>\<open>select\<close> element.\<close>

definition recognized :: "string list" where
  "recognized = [''all'', ''conservative'', ''base'', ''optimistic'']"

definition finite_params :: "params \<Rightarrow> bool" where
  "finite_params q \<longleftrightarrow>
     is_Fin (mean_p q) \<and> is_Fin (std_p q) \<and> num_lt (Fin 0) (std_p q) \<and> is_Fin (ms_p q)"

text \<open>\<^verbatim>\<open>Math.random()\<close> returns a number of the interval \<open>[0, 1)\<close>.\<close>

definition Math_random_draws :: "(nat \<Rightarrow> real) \<Rightarrow> bool" where
  "Math_random_draws random = (\<forall>k. 0 \<le> random k \<and> random k < 1)"

text \<open>
  The variate is NaN only as the product \<open>Infinity * 0\<close>: a draw \<open>u1 = 0\<close> with a cosine
  that is exactly 0. The exact cosine vanishes at \<open>u2 = 1/4\<close> and \<open>u2 = 3/4\<close>; the binary64
  \<^verbatim>\<open>Math.cos(2 * Math.PI * u2)\<close> does not (at these two draws it is about \<open>6.1e-17\<close> and
  \<open>-1.8e-16\<close>). The following condition keeps the runs on which exact and binary64
  arithmetic agree in this respect.
\<close>

definition cos_nonzero_at_zero_draws :: "(nat \<Rightarrow> real) \<Rightarrow> bool" where
  "cos_nonzero_at_zero_draws random =
     (\<forall>i<10000. random (2 * i) = 0 \<longrightarrow> cos (2 * pi * random (2 * i + 1)) \<noteq> 0)"

text \<open>Concrete inputs for the examples: runs of draws, and the statistics of the spec's
  trajectory example (the fields the trajectory does not read are chosen freely).\<close>

definition const_draws :: "real \<Rightarrow> nat \<Rightarrow> real" where
  "const_draws c k = c"

definition alternating_draws :: "real \<Rightarrow> real \<Rightarrow> nat \<Rightarrow> real" where
  "alternating_draws a b k = (if even k then a else b)"

definition stats_example :: summary where
  "stats_example =
     \<lparr>mean = Fin 89.4, median = Fin 89.4, p10 = Fin 74.2, p90 = Fin 108.7, min_v = Fin 50,
      max_v = Fin 140, std = Fin 11.2, positive = Fin 100, above80 = Fin 80, avgMs = Fin 74.9,
      msAbove75 = Fin 50\<rparr>"

text \<open>The years of the trajectory, as the strings \<^verbatim>\<open>String(yr)\<close> gives.\<close>

definition years :: "string list" where
  "years = [''2026'', ''2027'', ''2028'', ''2029'', ''2030'', ''2031'']"

text \<open>The order of the numbers that are not NaN, as a key into a linear order: the
  comparator \<^verbatim>\<open>a.npv - b.npv\<close> sorts by it (lemma \<open>cmp_rank_fl\<close>).\<close>

definition rank :: "jsnum \<Rightarrow> int \<times> real" where
  "rank v = (case v of Fin a \<Rightarrow> (0, a) | PInf \<Rightarrow> (1, 0) | NInf \<Rightarrow> (- 1, 0) | NaN \<Rightarrow> (2, 0))"

definition no_NaN_values :: "sample list \<Rightarrow> bool" where
  "no_NaN_values xs = list_all (\<lambda>s. npv s \<noteq> NaN) xs"

text \<open>Three samples for the examples.\<close>

definition sample_hi :: sample where
  "sample_hi = \<lparr>npv = Fin 90, ms = Fin 0.8\<rparr>"

definition sample_lo :: sample where
  "sample_lo = \<lparr>npv = Fin 60, ms = Fin 0.6\<rparr>"

definition sample_top :: sample where
  "sample_top = \<lparr>npv = PInf, ms = Fin 0.95\<rparr>"

text \<open>The counters after the \<^verbatim>\<open>forEach\<close> of the distribution, and the bin object that
  its \<^verbatim>\<open>map\<close> makes of counter \<open>cnt\<close> at index \<open>i\<close> for a population of \<open>n\<close> samples.\<close>

definition bin_counts :: "sample list \<Rightarrow> summary \<Rightarrow> nat list" where
  "bin_counts sims st =
     foldl (\<lambda>d s. dist_incr d (bin_index st 40 ((max_v st - min_v st) / js_of_nat 40) s))
       (replicate 40 0) sims"

definition mk_bin :: "summary \<Rightarrow> nat \<Rightarrow> nat \<Rightarrow> nat \<Rightarrow> bin" where
  "mk_bin st n cnt i =
     \<lparr>bin_x = min_v st + (js_of_nat i + Fin 0.5) * ((max_v st - min_v st) / js_of_nat 40),
      bin_y = js_of_nat cnt / js_of_nat n * Fin 100\<rparr>"

definition finite_values :: "sample list \<Rightarrow> bool" where
  "finite_values xs = list_all (\<lambda>s. is_Fin (npv s)) xs"

text \<open>The summary that the statistics return on a population held alone in the store.\<close>

definition stats_of :: "sample list \<Rightarrow> summary" where
  "stats_of sims = projr (fst (stats 0 [sims]))"

text \<open>The population in which every sample is clamped from below.\<close>

definition clamped_population :: "sample list" where
  "clamped_population = replicate 10000 \<lparr>npv = Fin 50, ms = Fin 0.5\<rparr>"

text \<open>The numbers that binary64 holds: rounding leaves them as they are. Every number
  that the engine stores is one of them.\<close>

definition is_binary64 :: "jsnum \<Rightarrow> bool" where
  "is_binary64 x = (case x of Fin r \<Rightarrow> binary64 r = Fin r | _ \<Rightarrow> True)"

definition binary64_values :: "sample list \<Rightarrow> bool" where
  "binary64_values sims = list_all (\<lambda>s. is_binary64 (npv s)) sims"

text \<open>The summary that the statistics in binary64 return on a population held alone in
  the store.\<close>

definition stats_of_fl :: "sample list \<Rightarrow> summary" where
  "stats_of_fl sims = projr (fst (stats_fl binary64 0 [sims]))"

text \<open>Two samples whose fields binary64 holds: the \<open>ms\<close> of the second,
  \<open>0.5000000000000001\<close>, is the number of binary64 next above \<open>0.5\<close>.\<close>

definition sample_half :: sample where
  "sample_half = \<lparr>npv = Fin 60, ms = Fin (1 / 2)\<rparr>"

definition sample_above :: sample where
  "sample_above = \<lparr>npv = Fin 70, ms = Fin (1 / 2 + 1 / 2 ^ 53)\<rparr>"

text \<open>The counters, the percentage \<^verbatim>\<open>(count / simulations.length) * 100\<close> and the bin
  object in binary64.\<close>

definition bin_counts_fl :: "sample list \<Rightarrow> summary \<Rightarrow> nat list" where
  "bin_counts_fl sims st =
     foldl (\<lambda>d s. dist_incr d
              (bin_index_fl binary64 st 40
                 (fl_div binary64 (fl_sub binary64 (max_v st) (min_v st)) (js_of_nat 40)) s))
       (replicate 40 0) sims"

definition percent_fl :: "nat \<Rightarrow> nat \<Rightarrow> jsnum" where
  "percent_fl cnt n = fl_mul binary64 (fl_div binary64 (js_of_nat cnt) (js_of_nat n)) (Fin 100)"

definition mk_bin_fl :: "summary \<Rightarrow> nat \<Rightarrow> nat \<Rightarrow> nat \<Rightarrow> bin" where
  "mk_bin_fl st n cnt i =
     \<lparr>bin_x = fl_add binary64 (min_v st)
                (fl_mul binary64 (fl_add binary64 (js_of_nat i) (binary64 0.5))
                   (fl_div binary64 (fl_sub binary64 (max_v st) (min_v st)) (js_of_nat 40))),
      bin_y = percent_fl cnt n\<rparr>"

text \<open>The fields that the simulations store when the variate is finite: an \<open>npv\<close> that is
  a finite number of binary64, at least 50 (\<^verbatim>\<open>Math.max(50, ...)\<close>), and an \<open>ms\<close> between
  \<open>0.5\<close> and \<open>0.95\<close> (\<^verbatim>\<open>Math.max(0.5, Math.min(0.95, ...))\<close>).\<close>

definition clamped_values :: "sample list \<Rightarrow> bool" where
  "clamped_values sims =
     list_all (\<lambda>s. is_Fin (npv s) \<and> is_binary64 (npv s) \<and> num_ge (npv s) (Fin 50)) sims"

definition clamped_ms :: "sample list \<Rightarrow> bool" where
  "clamped_ms sims =
     list_all (\<lambda>s. is_Fin (ms s) \<and> num_ge (ms s) (Fin 0.5) \<and> num_le (ms s) (Fin 0.95)) sims"

section \<open>Facts about numbers and lookups\<close>

lemma NaN_absorbs [simp]:
  "x + NaN = NaN" "NaN + x = NaN" "x * NaN = NaN" "NaN * x = NaN"
  "x / NaN = NaN" "NaN / x = NaN" "x - NaN = NaN" "NaN - x = NaN"
  by (cases x; simp add: minus_jsnum_def)+

lemma Math_max_NaN [simp]: "Math_max x NaN = NaN" "Math_max NaN x = NaN"
  "Math_min x NaN = NaN" "Math_min NaN x = NaN"
  by (simp_all add: Math_max_def Math_min_def)

lemma Math_max_Fin [simp]: "Math_max (Fin a) (Fin b) = Fin (max a b)"
  "Math_min (Fin a) (Fin b) = Fin (min a b)"
  by (auto simp: Math_max_def Math_min_def)

declare simulations_loop.simps [simp del]

lemma draw_sample_Own: "draw_sample (Own q) u1 u2 = Inr (mk_sample q (z_variate u1 u2))"
  by (simp add: draw_sample_def mk_sample_def Let_def)

lemma draw_sample_Inherited: "draw_sample Inherited u1 u2 = Inr \<lparr>npv = NaN, ms = NaN\<rparr>"
  by (simp add: draw_sample_def Let_def)

lemma draw_sample_Undefined: "draw_sample Undefined u1 u2 = Inl TypeError"
  by (simp add: draw_sample_def Let_def)

lemma loop_Own:
  "i \<le> 10000 \<Longrightarrow> simulations_loop (Own q) random i results =
     Inr (results @ map (\<lambda>j. mk_sample q (z_variate (random (2 * j)) (random (2 * j + 1))))
                      [i..<10000])"
proof (induction "Own q :: params lookup" random i results rule: simulations_loop.induct)
  case (1 random i results)
  show ?case
  proof (cases "i < 10000")
    case True
    then show ?thesis
      using 1(1) [OF True draw_sample_Own]
      by (subst simulations_loop.simps) (simp add: draw_sample_Own upt_conv_Cons)
  next
    case False
    with 1(2) show ?thesis
      by (subst simulations_loop.simps) simp
  qed
qed

lemma loop_Inherited:
  "i \<le> 10000 \<Longrightarrow> simulations_loop Inherited random i results =
     Inr (results @ replicate (10000 - i) \<lparr>npv = NaN, ms = NaN\<rparr>)"
proof (induction "Inherited :: params lookup" random i results rule: simulations_loop.induct)
  case (1 random i results)
  show ?case
  proof (cases "i < 10000")
    case True
    then have "10000 - i = Suc (10000 - Suc i)" by simp
    then show ?thesis
      using 1(1) [OF True draw_sample_Inherited] True
      by (subst simulations_loop.simps) (simp add: draw_sample_Inherited)
  next
    case False
    with 1(2) show ?thesis
      by (subst simulations_loop.simps) simp
  qed
qed

lemma loop_Undefined: "simulations_loop Undefined random 0 [] = Inl TypeError"
  by (subst simulations_loop.simps) (simp add: draw_sample_Undefined)

lemma recognized_cases:
  "scenario \<in> set recognized \<longleftrightarrow>
     scenario = ''all'' \<or> scenario = ''conservative'' \<or> scenario = ''base'' \<or>
     scenario = ''optimistic''"
  by (simp add: recognized_def)

lemma params_recognized:
  assumes "scenario \<in> set recognized"
  shows "\<exists>q. object_get params_table scenario = Own q \<and> finite_params q"
  using assms unfolding recognized_cases
  by (elim disjE) (simp_all add: params_table_def finite_params_def)

lemma factors_recognized:
  assumes "scenario \<in> set recognized"
  shows "\<exists>fs. object_get factors_table scenario = Own fs \<and> length fs = 6"
  using assms unfolding recognized_cases
  by (elim disjE) (simp_all add: factors_table_def)

lemma lookup_unknown:
  assumes "key \<notin> set recognized" "key \<notin> set Object_prototype_keys"
  shows "object_get params_table key = Undefined" "object_get factors_table key = Undefined"
  using assms by (simp_all add: recognized_def params_table_def factors_table_def)

lemma lookup_inherited:
  assumes "key \<in> set Object_prototype_keys"
  shows "object_get params_table key = Inherited" "object_get factors_table key = Inherited"
  using assms by (auto simp: Object_prototype_keys_def params_table_def factors_table_def)

lemma z_variate_zero:
  "z_variate 0 u2 = (if 0 < cos (2 * pi * u2) then PInf
                     else if cos (2 * pi * u2) < 0 then NInf else NaN)"
  by (simp add: z_variate_def)

lemma z_variate_finite:
  assumes "0 < u1" "u1 < 1"
  shows "z_variate u1 u2 = Fin (sqrt (- 2 * ln u1) * cos (2 * pi * u2))"
proof -
  have "ln u1 < 0" using assms by simp
  then have "\<not> (- 2 * ln u1 < 0)" by simp
  then show ?thesis using assms by (simp add: z_variate_def)
qed

lemma z_variate_not_NaN:
  assumes "0 \<le> u1" "u1 < 1" "u1 = 0 \<longrightarrow> cos (2 * pi * u2) \<noteq> 0"
  shows "z_variate u1 u2 \<noteq> NaN"
proof (cases "u1 = 0")
  case True
  with assms(3) show ?thesis by (simp add: z_variate_zero)
next
  case False
  with assms have "0 < u1" by simp
  then show ?thesis using assms(2) by (simp add: z_variate_finite)
qed

lemma mk_sample_range:
  assumes "z \<noteq> NaN" "finite_params q"
  shows "num_ge (npv (mk_sample q z)) (Fin 50) \<and>
         num_ge (ms (mk_sample q z)) (Fin 0.5) \<and> num_le (ms (mk_sample q z)) (Fin 0.95)"
proof -
  obtain m sd r where q: "mean_p q = Fin m" "std_p q = Fin sd" "ms_p q = Fin r" and sd: "0 < sd"
    using assms(2) by (cases "mean_p q"; cases "std_p q"; cases "ms_p q")
      (simp_all add: finite_params_def)
  show ?thesis
    using assms(1) sd
    by (cases z) (simp_all add: q mk_sample_def num_ge_def num_le_def Math_max_def Math_min_def)
qed

lemma simulations_Own:
  assumes "object_get params_table scenario = Own q"
  shows "simulations scenario random =
     Inr (map (\<lambda>j. mk_sample q (z_variate (random (2 * j)) (random (2 * j + 1)))) [0..<10000])"
  using assms loop_Own [of 0 q random "[]"] by (simp add: simulations_def)

lemma simulations_range:
  assumes "scenario \<in> set recognized"
    and "Math_random_draws random" and "cos_nonzero_at_zero_draws random"
  shows "\<exists>results. simulations scenario random = Inr results \<and> length results = 10000 \<and>
           (\<forall>s \<in> set results. num_ge (npv s) (Fin 50) \<and>
                                 num_ge (ms s) (Fin 0.5) \<and> num_le (ms s) (Fin 0.95))"
proof -
  obtain q where q: "object_get params_table scenario = Own q" and fin: "finite_params q"
    using params_recognized [OF assms(1)] by blast
  let ?z = "\<lambda>j. z_variate (random (2 * j)) (random (2 * j + 1))"
  let ?pop = "map (\<lambda>j. mk_sample q (?z j)) [0..<10000]"
  have z: "?z j \<noteq> NaN" if "j < 10000" for j
  proof (rule z_variate_not_NaN)
    show "0 \<le> random (2 * j)" "random (2 * j) < 1"
      using assms(2) by (simp_all add: Math_random_draws_def)
    show "random (2 * j) = 0 \<longrightarrow> cos (2 * pi * random (2 * j + 1)) \<noteq> 0"
      using assms(3) that by (simp add: cos_nonzero_at_zero_draws_def)
  qed
  have "num_ge (npv s) (Fin 50) \<and> num_ge (ms s) (Fin 0.5) \<and> num_le (ms s) (Fin 0.95)"
    if "s \<in> set ?pop" for s
  proof -
    from that obtain j where "j < 10000" and "s = mk_sample q (?z j)"
      by auto
    then show ?thesis using mk_sample_range [OF z fin] by blast
  qed
  moreover have "simulations scenario random = Inr ?pop"
    by (rule simulations_Own [OF q])
  moreover have "length ?pop = 10000" by simp
  ultimately show ?thesis by blast
qed

text \<open>
  Claim C1. For every recognized scenario key the simulations are exactly 10,000 samples,
  and every sample has \<open>npv >= 50\<close> and \<open>0.5 <= ms <= 0.95\<close>. This holds on every run of
  draws of \<^verbatim>\<open>Math.random()\<close> (from \<open>[0, 1)\<close>) whose variates are not NaN; a draw
  \<open>u1 = 0\<close> gives an infinite variate and the sample still lies in these bounds.
\<close>

theorem simulations_population:
  assumes "scenario \<in> set recognized"
    and "Math_random_draws random" and "cos_nonzero_at_zero_draws random"
  shows "\<exists>results. simulations scenario random = Inr results \<and> length results = 10000 \<and>
           (\<forall>s \<in> set results. num_ge (npv s) (Fin 50) \<and>
                                 num_ge (ms s) (Fin 0.5) \<and> num_le (ms s) (Fin 0.95))"
  by (rule simulations_range [OF assms])

theorem simulations_population_witness:
  "''base'' \<in> set recognized \<and> Math_random_draws (\<lambda>k. 0) \<and> cos_nonzero_at_zero_draws (\<lambda>k. 0) \<and>
   (\<exists>results. simulations ''base'' (\<lambda>k. 0) = Inr results \<and> length results = 10000 \<and>
      list_all (\<lambda>s. num_ge (npv s) (Fin 50) \<and> num_ge (ms s) (Fin 0.5) \<and> num_le (ms s) (Fin 0.95))
        results)"
proof -
  have h1: "''base'' \<in> set recognized" by (simp add: recognized_def)
  have h2: "Math_random_draws (\<lambda>k. 0)" by (simp add: Math_random_draws_def)
  have h3: "cos_nonzero_at_zero_draws (\<lambda>k. 0)" by (simp add: cos_nonzero_at_zero_draws_def)
  have "\<exists>results. simulations ''base'' (\<lambda>k. 0) = Inr results \<and> length results = 10000 \<and>
      list_all (\<lambda>s. num_ge (npv s) (Fin 50) \<and> num_ge (ms s) (Fin 0.5) \<and> num_le (ms s) (Fin 0.95))
        results"
    unfolding list_all_iff by (rule simulations_population [OF h1 h2 h3])
  with h1 h2 h3 show ?thesis by blast
qed

lemma upt_0_6: "[0..<6] = [0, 1, 2, 3, 4, 5]"
  by (simp add: upt_rec)

lemma trajectory_Own:
  assumes "object_get factors_table scenario = Own fs" "length fs = 6"
  shows "trajectory scenario st =
     Inr (map (\<lambda>i. \<lparr>year = years ! i,
                      expected = toFixed1 (median st * fs ! i),
                      p90_t = toFixed1 (p90 st * fs ! i * Fin 1.05),
                      p10_t = toFixed1 (p10 st * fs ! i * Fin 0.95)\<rparr>) [0..<6])"
  using assms by (simp add: trajectory_def upt_0_6 years_def)

lemma trajectory_Inherited:
  assumes "object_get factors_table scenario = Inherited"
  shows "trajectory scenario st =
     Inr (map (\<lambda>yr. \<lparr>year = yr, expected = NaN, p90_t = NaN, p10_t = NaN\<rparr>) years)"
  using assms by (simp add: trajectory_def upt_0_6 years_def)

lemma trajectory_Undefined:
  assumes "object_get factors_table scenario = Undefined"
  shows "trajectory scenario st = Inl TypeError"
  using assms by (simp add: trajectory_def upt_0_6)

lemma simulations_Inherited:
  assumes "object_get params_table scenario = Inherited"
  shows "simulations scenario random = Inr (replicate 10000 \<lparr>npv = NaN, ms = NaN\<rparr>)"
  using assms loop_Inherited [of 0 random "[]"] by (simp add: simulations_def)

lemma simulations_Undefined:
  assumes "object_get params_table scenario = Undefined"
  shows "simulations scenario random = Inl TypeError"
  using assms loop_Undefined by (simp add: simulations_def)

text \<open>
  Claim C8. Each trajectory point is computed as
  \<open>expected = Number((median * factor).toFixed(1))\<close>,
  \<open>p90 = Number((p90 * factor * 1.05).toFixed(1))\<close> and
  \<open>p10 = Number((p10 * factor * 0.95).toFixed(1))\<close>, with the six factors of the scenario in
  order; on \<open>median = 89.4\<close>, \<open>p10 = 74.2\<close>, \<open>p90 = 108.7\<close> and scenario \<open>base\<close>, whose
  factors are \<open>0.15, 0.28, 0.42, 0.58, 0.75, 0.88\<close>, the first point has
  \<open>expected = 13.4\<close>, \<open>p90 = 17.1\<close> and \<open>p10 = 10.6\<close>.
\<close>

theorem trajectory_points:
  "(scenario \<in> set recognized \<longrightarrow>
      (\<exists>fs. object_get factors_table scenario = Own fs \<and> length fs = 6 \<and>
         trajectory scenario st =
           Inr (map (\<lambda>i. \<lparr>year = years ! i,
                            expected = toFixed1 (median st * fs ! i),
                            p90_t = toFixed1 (p90 st * fs ! i * Fin 1.05),
                            p10_t = toFixed1 (p10 st * fs ! i * Fin 0.95)\<rparr>) [0..<6]))) \<and>
   (median st = Fin 89.4 \<and> p10 st = Fin 74.2 \<and> p90 st = Fin 108.7 \<longrightarrow>
      object_get factors_table ''base'' =
        Own [Fin 0.15, Fin 0.28, Fin 0.42, Fin 0.58, Fin 0.75, Fin 0.88] \<and>
      (\<exists>rest. trajectory ''base'' st =
         Inr (\<lparr>year = ''2026'', expected = Fin 13.4, p90_t = Fin 17.1, p10_t = Fin 10.6\<rparr> # rest)))"
proof (intro conjI impI)
  assume "scenario \<in> set recognized"
  then obtain fs where "object_get factors_table scenario = Own fs" "length fs = 6"
    using factors_recognized by blast
  then show "\<exists>fs. object_get factors_table scenario = Own fs \<and> length fs = 6 \<and>
         trajectory scenario st =
           Inr (map (\<lambda>i. \<lparr>year = years ! i,
                            expected = toFixed1 (median st * fs ! i),
                            p90_t = toFixed1 (p90 st * fs ! i * Fin 1.05),
                            p10_t = toFixed1 (p10 st * fs ! i * Fin 0.95)\<rparr>) [0..<6])"
    using trajectory_Own by blast
next
  show "object_get factors_table ''base'' =
        Own [Fin 0.15, Fin 0.28, Fin 0.42, Fin 0.58, Fin 0.75, Fin 0.88]"
    by (simp add: factors_table_def)
next
  assume a: "median st = Fin 89.4 \<and> p10 st = Fin 74.2 \<and> p90 st = Fin 108.7"
  have "object_get factors_table ''base'' =
        Own [Fin 0.15, Fin 0.28, Fin 0.42, Fin 0.58, Fin 0.75, Fin 0.88]"
    by (simp add: factors_table_def)
  from trajectory_Own [OF this, of st] a
  show "\<exists>rest. trajectory ''base'' st =
         Inr (\<lparr>year = ''2026'', expected = Fin 13.4, p90_t = Fin 17.1, p10_t = Fin 10.6\<rparr> # rest)"
    by (simp add: upt_0_6 years_def)
qed

theorem trajectory_points_witness:
  "''base'' \<in> set recognized \<and>
   median stats_example = Fin 89.4 \<and> p10 stats_example = Fin 74.2 \<and> p90 stats_example = Fin 108.7 \<and>
   trajectory ''base'' stats_example =
     Inr [\<lparr>year = ''2026'', expected = Fin 13.4, p90_t = Fin 17.1, p10_t = Fin 10.6\<rparr>,
          \<lparr>year = ''2027'', expected = Fin 25, p90_t = Fin 32, p10_t = Fin 19.7\<rparr>,
          \<lparr>year = ''2028'', expected = Fin 37.5, p90_t = Fin 47.9, p10_t = Fin 29.6\<rparr>,
          \<lparr>year = ''2029'', expected = Fin 51.9, p90_t = Fin 66.2, p10_t = Fin 40.9\<rparr>,
          \<lparr>year = ''2030'', expected = Fin 67.1, p90_t = Fin 85.6, p10_t = Fin 52.9\<rparr>,
          \<lparr>year = ''2031'', expected = Fin 78.7, p90_t = Fin 100.4, p10_t = Fin 62\<rparr>]"
  using trajectory_points [of "''base''" stats_example]
  by (simp add: recognized_def stats_example_def upt_0_6 years_def factors_table_def)

lemma simulations_const:
  assumes "object_get params_table scenario = Own q"
    and "\<And>j. z_variate (random (2 * j)) (random (2 * j + 1)) = z"
  shows "simulations scenario random = Inr (replicate 10000 (mk_sample q z))"
proof -
  have "simulations scenario random = Inr (map (\<lambda>j. mk_sample q z) [0..<10000])"
    by (simp only: simulations_Own [OF assms(1)] assms(2))
  then show ?thesis by (simp add: map_replicate_const)
qed

text \<open>
  Claim C2, as the code has it. The loop takes \<^verbatim>\<open>u1\<close> as \<^verbatim>\<open>Math.random()\<close> returns
  it, with no guard and no second draw: sample \<open>j\<close> is computed from the draws \<open>2 * j\<close> and
  \<open>2 * j + 1\<close> whatever their values. For \<open>0 < u1 < 1\<close> the variate is finite. At \<open>u1 = 0\<close>
  the logarithm is applied to 0 and is \<open>-Infinity\<close>; the variate is then \<open>+Infinity\<close> or
  \<open>-Infinity\<close>, by the sign of the cosine (and NaN where the cosine is 0).
\<close>

theorem sampler_zero_draw:
  "Math_log (Fin 0) = NInf \<and>
   (0 < u1 \<and> u1 < 1 \<longrightarrow> z_variate u1 u2 = Fin (sqrt (- 2 * ln u1) * cos (2 * pi * u2))) \<and>
   z_variate 0 u2 = (if 0 < cos (2 * pi * u2) then PInf
                     else if cos (2 * pi * u2) < 0 then NInf else NaN) \<and>
   (object_get params_table scenario = Own q \<longrightarrow>
      simulations scenario random =
        Inr (map (\<lambda>j. mk_sample q (z_variate (random (2 * j)) (random (2 * j + 1))))
               [0..<10000]))"
  using z_variate_finite [of u1 u2] z_variate_zero [of u2] simulations_Own [of scenario q random]
  by simp

theorem sampler_zero_draw_witness:
  "0 < (1 / 2 :: real) \<and> (1 / 2 :: real) < 1 \<and>
   z_variate (1 / 2) 0 = Fin (sqrt (- 2 * ln (1 / 2))) \<and>
   object_get params_table ''base'' =
     Own \<lparr>mean_p = Fin 89.4, std_p = Fin 11.2, ms_p = Fin 0.749\<rparr> \<and>
   simulations ''base'' (const_draws 0) =
     Inr (map (\<lambda>j. mk_sample \<lparr>mean_p = Fin 89.4, std_p = Fin 11.2, ms_p = Fin 0.749\<rparr>
                     (z_variate (const_draws 0 (2 * j)) (const_draws 0 (2 * j + 1))))
            [0..<10000])"
  using sampler_zero_draw [of "1 / 2" 0 "''base''"
      "\<lparr>mean_p = Fin 89.4, std_p = Fin 11.2, ms_p = Fin 0.749\<rparr>" "const_draws 0"]
  by (simp add: params_table_def)

text \<open>
  The claim as stated (a zero draw is drawn again, the logarithm never meets 0, the
  variate is never \<open>-Infinity\<close>) fails on the run of draws \<open>0, 1/2, 0, 1/2, ...\<close>: the
  logarithm of the first draw is \<open>-Infinity\<close>, the variate \<open>Infinity * cos \<pi> = -Infinity\<close>,
  and all 10,000 samples are the clamped \<open>(50, 0.5)\<close>.
\<close>

theorem sampler_zero_draw_counterexample:
  "alternating_draws 0 (1 / 2) 0 = 0 \<and> alternating_draws 0 (1 / 2) 1 = 1 / 2 \<and>
   Math_log (Fin (alternating_draws 0 (1 / 2) 0)) = NInf \<and>
   z_variate (alternating_draws 0 (1 / 2) 0) (alternating_draws 0 (1 / 2) 1) = NInf \<and>
   simulations ''base'' (alternating_draws 0 (1 / 2)) =
     Inr (replicate 10000 \<lparr>npv = Fin 50, ms = Fin 0.5\<rparr>)"
proof -
  have z: "z_variate (alternating_draws 0 (1 / 2) (2 * j)) (alternating_draws 0 (1 / 2) (2 * j + 1))
             = NInf" for j
    by (simp add: alternating_draws_def z_variate_zero)
  have q: "object_get params_table ''base'' =
      Own \<lparr>mean_p = Fin 89.4, std_p = Fin 11.2, ms_p = Fin 0.749\<rparr>"
    by (simp add: params_table_def)
  have "mk_sample \<lparr>mean_p = Fin 89.4, std_p = Fin 11.2, ms_p = Fin 0.749\<rparr> NInf =
          \<lparr>npv = Fin 50, ms = Fin 0.5\<rparr>"
    by (simp add: mk_sample_def Math_max_def Math_min_def)
  then have "simulations ''base'' (alternating_draws 0 (1 / 2)) =
     Inr (replicate 10000 \<lparr>npv = Fin 50, ms = Fin 0.5\<rparr>)"
    using simulations_const [OF q z] by simp
  then show ?thesis
    using z [of 0] by (simp add: alternating_draws_def)
qed

text \<open>
  Claim C3, as the code has it. The code has no check of the selector. For a selector that
  is neither recognized nor the name of a member of \<^verbatim>\<open>Object.prototype\<close>, the lookup is
  \<^verbatim>\<open>undefined\<close> and both the simulations and the trajectory end in a TypeError, thrown by
  the first read of a property of it; no result is returned. For a selector that names an
  inherited member (such as \<open>constructor\<close> or \<open>toString\<close>) no error is raised: the
  simulations are 10,000 samples of NaN and the trajectory six points of NaN. In no case
  is the parameter set of another scenario used.
\<close>

theorem unknown_scenario:
  "(key \<notin> set recognized \<and> key \<notin> set Object_prototype_keys \<longrightarrow>
      simulations key random = Inl TypeError \<and> trajectory key st = Inl TypeError) \<and>
   (key \<in> set Object_prototype_keys \<longrightarrow>
      simulations key random = Inr (replicate 10000 \<lparr>npv = NaN, ms = NaN\<rparr>) \<and>
      trajectory key st =
        Inr (map (\<lambda>yr. \<lparr>year = yr, expected = NaN, p90_t = NaN, p10_t = NaN\<rparr>) years))"
  using lookup_unknown [of key] lookup_inherited [of key]
    simulations_Undefined [of key random] trajectory_Undefined [of key st]
    simulations_Inherited [of key random] trajectory_Inherited [of key st]
  by blast

theorem unknown_scenario_witness:
  "''extreme'' \<notin> set recognized \<and> ''extreme'' \<notin> set Object_prototype_keys \<and>
   simulations ''extreme'' (const_draws (1 / 2)) = Inl TypeError \<and>
   trajectory ''extreme'' stats_example = Inl TypeError \<and>
   ''toString'' \<in> set Object_prototype_keys \<and>
   simulations ''toString'' (const_draws (1 / 2)) = Inr (replicate 10000 \<lparr>npv = NaN, ms = NaN\<rparr>)"
  using unknown_scenario [of "''extreme''" "const_draws (1 / 2)" stats_example]
    unknown_scenario [of "''toString''" "const_draws (1 / 2)" stats_example]
  by (simp add: recognized_def Object_prototype_keys_def)

text \<open>
  The claim as stated fails at the selector \<open>constructor\<close>, which is outside the
  recognized set: both functions return a result.
\<close>

theorem unknown_scenario_counterexample:
  "''constructor'' \<notin> set recognized \<and>
   simulations ''constructor'' (const_draws (1 / 2)) =
     Inr (replicate 10000 \<lparr>npv = NaN, ms = NaN\<rparr>) \<and>
   trajectory ''constructor'' stats_example =
     Inr [\<lparr>year = ''2026'', expected = NaN, p90_t = NaN, p10_t = NaN\<rparr>,
          \<lparr>year = ''2027'', expected = NaN, p90_t = NaN, p10_t = NaN\<rparr>,
          \<lparr>year = ''2028'', expected = NaN, p90_t = NaN, p10_t = NaN\<rparr>,
          \<lparr>year = ''2029'', expected = NaN, p90_t = NaN, p10_t = NaN\<rparr>,
          \<lparr>year = ''2030'', expected = NaN, p90_t = NaN, p10_t = NaN\<rparr>,
          \<lparr>year = ''2031'', expected = NaN, p90_t = NaN, p10_t = NaN\<rparr>]"
proof -
  have k: "''constructor'' \<in> set Object_prototype_keys"
    by (simp add: Object_prototype_keys_def)
  show ?thesis
    using simulations_Inherited [OF lookup_inherited(1) [OF k]]
      trajectory_Inherited [OF lookup_inherited(2) [OF k]]
    by (simp add: recognized_def years_def)
qed

text \<open>
  Claim C7. The scatter classifies each of the first 800 samples by its \<open>ms\<close>: exactly
  \<open>0.78\<close> is \<open>Med\<close> and exactly \<open>0.70\<close> is \<open>High\<close>; in general \<open>ms > 0.78\<close> is \<open>Low\<close>,
  \<open>0.70 < ms <= 0.78\<close> is \<open>Med\<close>, and \<open>ms <= 0.70\<close> is \<open>High\<close>.
\<close>

theorem scatter_risk_tiers:
  "map risk (scatter sims) = map (\<lambda>s. risk_of (ms s)) (take 800 sims) \<and>
   risk_of (Fin 0.78) = Med \<and> risk_of (Fin 0.7) = High \<and>
   (num_gt m (Fin 0.78) \<longrightarrow> risk_of m = Low) \<and>
   (num_gt m (Fin 0.7) \<and> num_le m (Fin 0.78) \<longrightarrow> risk_of m = Med) \<and>
   (num_le m (Fin 0.7) \<longrightarrow> risk_of m = High)"
  by (cases m) (simp_all add: scatter_def risk_of_def num_gt_def num_le_def)

theorem scatter_risk_tiers_witness:
  "num_gt (Fin 0.8) (Fin 0.78) \<and> risk_of (Fin 0.8) = Low \<and>
   num_gt (Fin 0.75) (Fin 0.7) \<and> num_le (Fin 0.75) (Fin 0.78) \<and> risk_of (Fin 0.75) = Med \<and>
   num_le (Fin 0.6) (Fin 0.7) \<and> risk_of (Fin 0.6) = High \<and>
   map risk (scatter [\<lparr>npv = Fin 60, ms = Fin 0.78\<rparr>, \<lparr>npv = Fin 90, ms = Fin 0.7\<rparr>]) = [Med, High]"
  using scatter_risk_tiers [of "[\<lparr>npv = Fin 60, ms = Fin 0.78\<rparr>, \<lparr>npv = Fin 90, ms = Fin 0.7\<rparr>]" "Fin 0.8"]
    scatter_risk_tiers [of "[]" "Fin 0.75"] scatter_risk_tiers [of "[]" "Fin 0.6"]
  by (simp add: num_gt_def num_le_def)

section \<open>Binary64 rounding: facts\<close>

lemma round_even_error: "\<bar>of_int (round_even y) - y\<bar> \<le> 1 / 2"
proof -
  define f where "f = \<lfloor>y\<rfloor>"
  have b: "of_int f \<le> y" "y < of_int f + 1" unfolding f_def by linarith+
  consider "y - of_int f < 1 / 2" | "1 / 2 < y - of_int f" | "y - of_int f = 1 / 2"
    by linarith
  then show ?thesis
  proof cases
    case 1
    then have "round_even y = f" by (simp add: round_even_def f_def)
    then show ?thesis using 1 b by simp
  next
    case 2
    then have "round_even y = f + 1" by (simp add: round_even_def f_def)
    then show ?thesis using 2 b by simp
  next
    case 3
    then have "round_even y = f \<or> round_even y = f + 1"
      by (simp add: round_even_def f_def Let_def)
    then show ?thesis using 3 by auto
  qed
qed

lemma round_even_of_int [simp]: "round_even (of_int k) = k"
  by (simp add: round_even_def)

lemma round_even_le:
  assumes "y \<le> of_int K"
  shows "round_even y \<le> K"
proof -
  have "\<lfloor>y\<rfloor> \<le> \<lfloor>of_int K :: real\<rfloor>" using assms by (rule floor_mono)
  then have f: "\<lfloor>y\<rfloor> \<le> K" by simp
  show ?thesis
  proof (cases "y - of_int \<lfloor>y\<rfloor> < 1 / 2")
    case True
    then show ?thesis using f by (simp add: round_even_def)
  next
    case False
    then have "of_int \<lfloor>y\<rfloor> < y" by linarith
    then have "of_int \<lfloor>y\<rfloor> < (of_int K :: real)" using assms by linarith
    then have "\<lfloor>y\<rfloor> < K" by simp
    then show ?thesis using f by (auto simp: round_even_def Let_def)
  qed
qed

lemma round_even_ge:
  assumes "of_int K \<le> y"
  shows "K \<le> round_even y"
proof -
  have "K \<le> \<lfloor>y\<rfloor>" using assms by (simp add: le_floor_iff)
  then show ?thesis by (auto simp: round_even_def Let_def)
qed

lemma round_even_near:
  assumes "\<bar>y - of_int k\<bar> < 1 / 2"
  shows "round_even y = k"
proof -
  have "round_even y \<le> k"
  proof (rule ccontr)
    assume "\<not> round_even y \<le> k"
    then have "k + 1 \<le> round_even y" by simp
    then have "of_int k + 1 \<le> (of_int (round_even y) :: real)"
      by (metis of_int_1 of_int_add of_int_le_iff)
    then show False using round_even_error [of y] assms by linarith
  qed
  moreover have "k \<le> round_even y"
  proof (rule ccontr)
    assume "\<not> k \<le> round_even y"
    then have "round_even y + 1 \<le> k" by simp
    then have "of_int (round_even y) + 1 \<le> (of_int k :: real)"
      by (metis of_int_1 of_int_add of_int_le_iff)
    then show False using round_even_error [of y] assms by linarith
  qed
  ultimately show ?thesis by simp
qed

lemma round_even_tie:
  assumes "y = of_int k + 1 / 2"
  shows "round_even y = (if even k then k else k + 1)"
proof -
  have "\<lfloor>y\<rfloor> = k" unfolding assms by linarith
  then show ?thesis by (simp add: round_even_def Let_def assms)
qed

lemma round_even_minus: "round_even (- y) = - round_even y"
proof -
  define f where "f = \<lfloor>y\<rfloor>"
  have b: "of_int f \<le> y" "y < of_int f + 1" unfolding f_def by linarith+
  consider "y = of_int f" | "0 < y - of_int f" "y - of_int f < 1 / 2"
    | "1 / 2 < y - of_int f" | "y - of_int f = 1 / 2"
    using b by linarith
  then show ?thesis
  proof cases
    case 1
    have "round_even (- y) = round_even (of_int (- f))" by (simp add: 1)
    then show ?thesis by (simp only: round_even_of_int 1)
  next
    case 2
    have "round_even y = f" by (rule round_even_near) (use 2 in simp)
    moreover have "round_even (- y) = - f" by (rule round_even_near) (use 2 in simp)
    ultimately show ?thesis by simp
  next
    case 3
    have "round_even y = f + 1" by (rule round_even_near) (use 3 b in simp)
    moreover have "round_even (- y) = - (f + 1)" by (rule round_even_near) (use 3 b in simp)
    ultimately show ?thesis by simp
  next
    case 4
    have y: "y = of_int f + 1 / 2" using 4 by simp
    have my: "- y = of_int (- f - 1) + 1 / 2" using 4 by simp
    show ?thesis
      unfolding round_even_tie [OF y] round_even_tie [OF my] by simp
  qed
qed

lemma ulp64_pos [simp]: "0 < ulp64 x"
  by (simp add: ulp64_def)

lemma ulp64_neq_0 [simp]: "ulp64 x \<noteq> 0"
  by (simp add: ulp64_def)

lemma ulp64_nonneg [simp]: "0 \<le> ulp64 x"
  by (simp add: ulp64_def)

lemma round64_0 [simp]: "round64 0 = 0"
  by (simp add: round64_def)

lemma round64_nonneg:
  assumes "0 \<le> x"
  shows "0 \<le> round64 x"
proof (cases "x = 0")
  case False
  have "of_int 0 \<le> x / ulp64 x" using assms by (simp add: divide_nonneg_pos)
  then have "0 \<le> round_even (x / ulp64 x)" by (rule round_even_ge)
  then show ?thesis using False by (simp add: round64_def)
qed simp

lemma round64_nonpos:
  assumes "x \<le> 0"
  shows "round64 x \<le> 0"
proof (cases "x = 0")
  case False
  have "x / ulp64 x \<le> of_int 0" using assms by (simp add: divide_nonpos_pos)
  then have "round_even (x / ulp64 x) \<le> 0" by (rule round_even_le)
  then have "of_int (round_even (x / ulp64 x)) * ulp64 x \<le> 0"
    by (intro mult_nonpos_nonneg) simp_all
  then show ?thesis using False by (simp add: round64_def)
qed simp

lemma round64_minus: "round64 (- x) = - round64 x"
  by (simp add: round64_def ulp64_def exponent64_def round_even_minus)

lemma floor_log2_bounds:
  assumes "x \<noteq> 0"
  shows "2 powr (of_int \<lfloor>log 2 \<bar>x\<bar>\<rfloor>) \<le> \<bar>x\<bar>"
    and "\<bar>x\<bar> < 2 powr (of_int (\<lfloor>log 2 \<bar>x\<bar>\<rfloor> + 1))"
  using assms floor_log_eq_powr_iff [of "\<bar>x\<bar>" 2 "\<lfloor>log 2 \<bar>x\<bar>\<rfloor>"] by simp_all

lemma exponent64_normal:
  assumes "2 powr (- 1022) \<le> \<bar>x\<bar>"
  shows "exponent64 x = \<lfloor>log 2 \<bar>x\<bar>\<rfloor>" and "2 powr (of_int (exponent64 x)) \<le> \<bar>x\<bar>"
proof -
  have pos: "0 < \<bar>x\<bar>" using assms by (smt (verit) powr_gt_zero)
  then have "- 1022 \<le> log 2 \<bar>x\<bar>"
    using assms by (simp add: le_log_iff)
  then have "- 1022 \<le> \<lfloor>log 2 \<bar>x\<bar>\<rfloor>" by (simp add: le_floor_iff)
  then show e: "exponent64 x = \<lfloor>log 2 \<bar>x\<bar>\<rfloor>" by (simp add: exponent64_def)
  show "2 powr (of_int (exponent64 x)) \<le> \<bar>x\<bar>"
    unfolding e using pos by (intro floor_log2_bounds) auto
qed

lemma round64_abs_error:
  assumes "x \<noteq> 0"
  shows "\<bar>round64 x - x\<bar> \<le> ulp64 x / 2"
proof -
  have "round64 x - x = (of_int (round_even (x / ulp64 x)) - x / ulp64 x) * ulp64 x"
    using assms by (simp add: round64_def left_diff_distrib)
  then have "\<bar>round64 x - x\<bar> = \<bar>of_int (round_even (x / ulp64 x)) - x / ulp64 x\<bar> * ulp64 x"
    by (simp add: abs_mult)
  also have "\<dots> \<le> 1 / 2 * ulp64 x"
    by (intro mult_right_mono round_even_error) simp
  finally show ?thesis by simp
qed

lemma round64_rel_error:
  assumes "2 powr (- 1022) \<le> \<bar>x\<bar>"
  shows "\<bar>round64 x - x\<bar> \<le> \<bar>x\<bar> / 2 ^ 53"
proof -
  have x: "x \<noteq> 0" using assms by (smt (verit) powr_gt_zero)
  have "ulp64 x / 2 = 2 powr (of_int (exponent64 x)) / 2 ^ 53"
    by (simp add: ulp64_def powr_diff)
  also have "\<dots> \<le> \<bar>x\<bar> / 2 ^ 53"
    using exponent64_normal(2) [OF assms] by (simp add: divide_right_mono)
  finally show ?thesis using round64_abs_error [OF x] by linarith
qed

lemma inverse_ulp64:
  assumes "exponent64 x \<le> 52"
  shows "1 / ulp64 x = 2 ^ nat (52 - exponent64 x)"
proof -
  have "1 / ulp64 x = 2 powr (of_int (52 - exponent64 x))"
    by (simp add: ulp64_def powr_diff)
  also have "\<dots> = 2 ^ nat (52 - exponent64 x)"
    using assms powr_real_of_int [of 2 "52 - exponent64 x"] by simp
  finally show ?thesis .
qed

lemma exponent64_le_52:
  assumes "\<bar>x\<bar> < 2 ^ 53" "x \<noteq> 0"
  shows "exponent64 x \<le> 52"
proof -
  have "\<bar>x\<bar> < 2 powr (of_int 53)" using assms(1) by (simp add: powr_real_of_int)
  then have "log 2 \<bar>x\<bar> < 53" using assms(2) by (simp add: log_less_iff)
  then have "\<lfloor>log 2 \<bar>x\<bar>\<rfloor> < 53" by (simp add: floor_less_iff)
  then show ?thesis by (simp add: exponent64_def)
qed

lemma round64_le_nat:
  assumes "x \<le> real k" "k < 2 ^ 53"
  shows "round64 x \<le> real k"
proof (cases "0 < x")
  case False
  then have "round64 x \<le> 0" by (intro round64_nonpos) simp
  then show ?thesis by linarith
next
  case True
  then have x: "x \<noteq> 0" by simp
  have "\<bar>x\<bar> < 2 ^ 53" using True assms by (simp add: of_nat_less_iff [of k "2 ^ 53", where ?'a = real, simplified] order_le_less_trans)
  then have e: "exponent64 x \<le> 52" using x by (rule exponent64_le_52)
  let ?m = "nat (52 - exponent64 x)"
  have inv: "1 / ulp64 x = 2 ^ ?m" by (rule inverse_ulp64 [OF e])
  have "x / ulp64 x = x * (1 / ulp64 x)" by simp
  also have "\<dots> \<le> real k * 2 ^ ?m"
    unfolding inv using assms(1) by (simp add: mult_right_mono)
  also have "\<dots> = of_int (int k * 2 ^ ?m)" by simp
  finally have "round_even (x / ulp64 x) \<le> int k * 2 ^ ?m" by (rule round_even_le)
  then have "of_int (round_even (x / ulp64 x)) \<le> (of_int (int k * 2 ^ ?m) :: real)"
    by (simp only: of_int_le_iff)
  then have "of_int (round_even (x / ulp64 x)) * ulp64 x \<le> of_int (int k * 2 ^ ?m) * ulp64 x"
    by (intro mult_right_mono) simp_all
  also have "\<dots> = real k * (2 ^ ?m * ulp64 x)" by simp
  also have "2 ^ ?m * ulp64 x = 1"
    using inv [symmetric] by simp
  finally show ?thesis using x by (simp add: round64_def)
qed

lemma round64_of_int_scaled:
  assumes "x / ulp64 x = of_int m"
  shows "round64 x = x"
proof (cases "x = 0")
  case False
  have "of_int (round_even (x / ulp64 x)) * ulp64 x = (x / ulp64 x) * ulp64 x"
    by (simp add: assms)
  then show ?thesis using False by (simp add: round64_def)
qed simp

lemma round64_of_nat:
  assumes "k < 2 ^ 53"
  shows "round64 (real k) = real k"
proof (cases "k = 0")
  case False
  have "\<bar>real k\<bar> < 2 ^ 53" using assms by (simp add: of_nat_less_iff [of k "2 ^ 53", where ?'a = real, simplified])
  then have e: "exponent64 (real k) \<le> 52" using False by (intro exponent64_le_52) simp_all
  let ?m = "nat (52 - exponent64 (real k))"
  have "real k / ulp64 (real k) = real k * (1 / ulp64 (real k))" by simp
  also have "\<dots> = of_int (int k * 2 ^ ?m)" by (simp add: inverse_ulp64 [OF e])
  finally show ?thesis by (rule round64_of_int_scaled)
qed simp

lemma round64_pos:
  assumes "2 powr (- 1074) \<le> x"
  shows "0 < round64 x"
proof -
  have x: "0 < x" using assms by (smt (verit) powr_gt_zero)
  have "1 \<le> x / ulp64 x"
  proof (cases "2 powr (- 1022) \<le> x")
    case True
    then have "2 powr (of_int (exponent64 x)) \<le> x"
      using exponent64_normal(2) [of x] x by simp
    moreover have "ulp64 x \<le> 2 powr (of_int (exponent64 x))"
      by (simp add: ulp64_def)
    ultimately show ?thesis by (simp add: le_divide_eq)
  next
    case False
    then have "log 2 \<bar>x\<bar> < - 1022" using x by (simp add: log_less_iff)
    then have "\<lfloor>log 2 \<bar>x\<bar>\<rfloor> < - 1022" by (simp add: floor_less_iff)
    then have "exponent64 x = - 1022" by (simp add: exponent64_def)
    then have "ulp64 x = 2 powr (- 1074)" by (simp add: ulp64_def)
    then show ?thesis using assms by (simp add: le_divide_eq)
  qed
  then have "of_int 1 \<le> x / ulp64 x" by simp
  then have "1 \<le> round_even (x / ulp64 x)" by (rule round_even_ge)
  then have "0 < (of_int (round_even (x / ulp64 x)) :: real)" by simp
  then show ?thesis using x by (simp add: round64_def)
qed

lemma round64_neg:
  assumes "x \<le> - (2 powr (- 1074))"
  shows "round64 x < 0"
proof -
  have x: "x < 0" using assms by (smt (verit) powr_gt_zero)
  have "x / ulp64 x \<le> - 1"
  proof (cases "2 powr (- 1022) \<le> \<bar>x\<bar>")
    case True
    then have "2 powr (of_int (exponent64 x)) \<le> \<bar>x\<bar>"
      by (rule exponent64_normal(2))
    moreover have "ulp64 x \<le> 2 powr (of_int (exponent64 x))"
      by (simp add: ulp64_def)
    ultimately have "ulp64 x \<le> - x" using x by simp
    then show ?thesis by (simp add: divide_le_eq)
  next
    case False
    then have "log 2 \<bar>x\<bar> < - 1022" using x by (simp add: log_less_iff)
    then have "\<lfloor>log 2 \<bar>x\<bar>\<rfloor> < - 1022" by (simp add: floor_less_iff)
    then have "exponent64 x = - 1022" by (simp add: exponent64_def)
    then have "ulp64 x = 2 powr (- 1074)" by (simp add: ulp64_def)
    then show ?thesis using assms by (simp add: divide_le_eq)
  qed
  then have "x / ulp64 x \<le> of_int (- 1)" by simp
  then have "round_even (x / ulp64 x) \<le> - 1" by (rule round_even_le)
  then have "(of_int (round_even (x / ulp64 x)) :: real) < 0" by simp
  then have "of_int (round_even (x / ulp64 x)) * ulp64 x < 0"
    by (simp add: mult_less_0_iff)
  then show ?thesis using x by (simp add: round64_def)
qed

lemma round64_scaled:
  assumes "2 ^ 52 \<le> \<bar>x\<bar> * 2 ^ n" "\<bar>x\<bar> * 2 ^ n < 2 ^ 53" "n \<le> 1074"
  shows "round64 x = of_int (round_even (x * 2 ^ n)) / 2 ^ n"
proof -
  have x: "x \<noteq> 0" using assms(1) by auto
  have p: "(2::real) powr (of_int (k - int n)) = 2 ^ k / 2 ^ n" for k :: nat
  proof -
    have "(2::real) powr (of_int (k - int n)) = 2 powr (real k - real n)" by simp
    also have "\<dots> = 2 powr (real k) / 2 powr (real n)" by (rule powr_diff)
    also have "\<dots> = 2 ^ k / 2 ^ n" by (simp add: powr_realpow)
    finally show ?thesis .
  qed
  have "2 powr (of_int (52 - int n)) \<le> \<bar>x\<bar>"
    using assms(1) p [of 52] by (simp add: divide_le_eq)
  moreover have "\<bar>x\<bar> < 2 powr (of_int (52 - int n + 1))"
    using assms(2) p [of 53] by (simp add: less_divide_eq)
  ultimately have "\<lfloor>log 2 \<bar>x\<bar>\<rfloor> = 52 - int n"
    using x floor_log_eq_powr_iff [of "\<bar>x\<bar>" 2 "52 - int n"] by simp
  then have "exponent64 x = 52 - int n"
    using assms(3) by (simp add: exponent64_def)
  then have "ulp64 x = 2 powr (of_int (0 - int n))" by (simp add: ulp64_def)
  then have u: "ulp64 x = 1 / 2 ^ n" using p [of 0] by simp
  show ?thesis using x by (simp add: round64_def u)
qed

lemma overflow64_large: "2 ^ 53 \<le> overflow64"
  unfolding overflow64_def by (rule power_increasing) simp_all

lemma overflow64_pos [simp]: "0 < overflow64"
  by (simp add: overflow64_def)

lemma binary64_Fin:
  assumes "\<bar>round64 x\<bar> < overflow64"
  shows "binary64 x = Fin (round64 x)"
proof -
  have "\<not> overflow64 \<le> round64 x" "\<not> round64 x \<le> - overflow64"
    using assms by linarith+
  then show ?thesis by (simp add: binary64_def Let_def)
qed

lemma binary64_0 [simp]: "binary64 0 = Fin 0"
  by (simp add: binary64_Fin)

lemma binary64_nonneg:
  assumes "0 \<le> x"
  shows "(\<exists>y. binary64 x = Fin y \<and> 0 \<le> y) \<or> binary64 x = PInf"
proof -
  have "\<not> round64 x \<le> - overflow64"
    using round64_nonneg [OF assms] overflow64_pos by linarith
  then show ?thesis
    using round64_nonneg [OF assms] by (simp add: binary64_def Let_def)
qed

lemma binary64_nonpos:
  assumes "x \<le> 0"
  shows "(\<exists>y. binary64 x = Fin y \<and> y \<le> 0) \<or> binary64 x = NInf"
proof -
  have "\<not> overflow64 \<le> round64 x"
    using round64_nonpos [OF assms] overflow64_pos by linarith
  then show ?thesis
    using round64_nonpos [OF assms] by (simp add: binary64_def Let_def)
qed

lemma real_less_2_53:
  assumes "k < 2 ^ 53"
  shows "real k < 2 ^ 53"
  using assms by (simp add: of_nat_less_iff [of k "2 ^ 53", where ?'a = real, simplified])

lemma binary64_of_nat:
  assumes "k < 2 ^ 53"
  shows "binary64 (real k) = Fin (real k)"
proof -
  have "\<bar>round64 (real k)\<bar> < overflow64"
    using real_less_2_53 [OF assms] overflow64_large by (simp add: round64_of_nat [OF assms])
  then show ?thesis by (simp add: binary64_Fin round64_of_nat [OF assms])
qed

lemma binary64_bounded:
  assumes "0 \<le> x" "x \<le> real k" "k < 2 ^ 53"
  shows "binary64 x = Fin (round64 x)" and "0 \<le> round64 x" and "round64 x \<le> real k"
proof -
  show hi: "round64 x \<le> real k" by (rule round64_le_nat [OF assms(2,3)])
  show lo: "0 \<le> round64 x" by (rule round64_nonneg [OF assms(1)])
  have "real k < 2 ^ 53" by (rule real_less_2_53 [OF assms(3)])
  then have "\<bar>round64 x\<bar> < overflow64" using hi lo overflow64_large by linarith
  then show "binary64 x = Fin (round64 x)" by (rule binary64_Fin)
qed

lemma binary64_scaled:
  assumes "2 ^ 52 \<le> \<bar>x\<bar> * 2 ^ n" "\<bar>x\<bar> * 2 ^ n < 2 ^ 53" "n \<le> 1074"
  shows "binary64 x = Fin (of_int (round_even (x * 2 ^ n)) / 2 ^ n)"
proof -
  let ?k = "round_even (x * 2 ^ n)"
  have r: "round64 x = of_int ?k / 2 ^ n" by (rule round64_scaled [OF assms])
  have ab: "\<bar>x * 2 ^ n\<bar> < 2 ^ 53" using assms(2) by (simp add: abs_mult)
  have "x * 2 ^ n \<le> of_int (2 ^ 53)" using ab by simp
  then have hi: "?k \<le> 2 ^ 53" by (rule round_even_le)
  have "of_int (- (2 ^ 53)) \<le> x * 2 ^ n" using ab by simp
  then have lo: "- (2 ^ 53) \<le> ?k" by (rule round_even_ge)
  have "(of_int ?k :: real) \<le> of_int (2 ^ 53)" "(of_int (- (2 ^ 53)) :: real) \<le> of_int ?k"
    using hi lo by (simp_all only: of_int_le_iff)
  then have "\<bar>of_int ?k :: real\<bar> \<le> 2 ^ 53" by simp
  moreover have "(1 :: real) \<le> 2 ^ n" by simp
  have "\<bar>of_int ?k :: real\<bar> / 2 ^ n \<le> \<bar>of_int ?k\<bar> / 1"
    by (rule divide_left_mono) simp_all
  ultimately have "\<bar>of_int ?k / 2 ^ n :: real\<bar> \<le> 2 ^ 53"
    by (simp add: abs_divide)
  moreover have "(2 :: real) ^ 53 < overflow64"
    unfolding overflow64_def by (rule power_strict_increasing) simp_all
  ultimately have "\<bar>round64 x\<bar> < overflow64" unfolding r by linarith
  then have "binary64 x = Fin (round64 x)" by (rule binary64_Fin)
  then show ?thesis by (simp only: r)
qed

lemma binary64_near:
  assumes "2 ^ 52 \<le> \<bar>x\<bar> * 2 ^ n" "\<bar>x\<bar> * 2 ^ n < 2 ^ 53" "n \<le> 1074"
    and "\<bar>x * 2 ^ n - of_int k\<bar> < 1 / 2"
  shows "binary64 x = Fin (of_int k / 2 ^ n)"
  using binary64_scaled [OF assms(1-3)] round_even_near [OF assms(4)] by simp

lemma binary64_tie_even:
  assumes "2 ^ 52 \<le> \<bar>x\<bar> * 2 ^ n" "\<bar>x\<bar> * 2 ^ n < 2 ^ 53" "n \<le> 1074"
    and "x * 2 ^ n = of_int k + 1 / 2" "even k"
  shows "binary64 x = Fin (of_int k / 2 ^ n)"
  using binary64_scaled [OF assms(1-3)] round_even_tie [OF assms(4)] assms(5) by simp

lemma binary64_minus: "binary64 (- x) = - binary64 x"
proof -
  have p: "0 < overflow64" by simp
  consider "overflow64 \<le> round64 x" | "round64 x \<le> - overflow64"
    | "\<not> overflow64 \<le> round64 x" "\<not> round64 x \<le> - overflow64"
    by blast
  then show ?thesis
  proof cases
    case 1
    moreover have "\<not> overflow64 \<le> - round64 x" using 1 p by linarith
    ultimately show ?thesis by (simp add: binary64_def Let_def round64_minus)
  next
    case 2
    moreover have "\<not> overflow64 \<le> round64 x" using 2 p by linarith
    ultimately show ?thesis by (simp add: binary64_def Let_def round64_minus)
  next
    case 3
    then show ?thesis by (simp add: binary64_def Let_def round64_minus)
  qed
qed

lemma binary64_int:
  assumes "\<bar>k\<bar> < 2 ^ 53"
  shows "binary64 (of_int k) = Fin (of_int k)"
proof (cases "0 \<le> k")
  case True
  then have "nat k < 2 ^ 53" using assms by (simp add: nat_less_iff)
  from binary64_of_nat [OF this] show ?thesis using True by simp
next
  case False
  then have n: "nat (- k) < 2 ^ 53" using assms by (simp add: nat_less_iff)
  have x: "(of_int k :: real) = - real (nat (- k))" using False by simp
  show ?thesis
    unfolding x binary64_minus binary64_of_nat [OF n] by simp
qed

lemma binary64_numeral [simp]:
  "numeral w < (2 ^ 53 :: int) \<Longrightarrow> binary64 (numeral w) = Fin (numeral w)"
  "numeral w < (2 ^ 53 :: int) \<Longrightarrow> binary64 (- numeral w) = Fin (- numeral w)"
  using binary64_int [of "numeral w"] binary64_int [of "- numeral w"] by simp_all

lemma binary64_1 [simp]: "binary64 1 = Fin 1"
  using binary64_int [of 1] by simp

lemma binary64_grid:
  assumes "binary64 x = Fin x"
  shows "\<exists>k :: int. x = of_int k * 2 powr (- 1074)"
proof (cases "x = 0")
  case True
  then show ?thesis by (intro exI [of _ 0]) simp
next
  case False
  have r: "round64 x = x" using assms by (auto simp: binary64_def Let_def split: if_splits)
  define E where "E = exponent64 x"
  have E: "- 1022 \<le> E" by (simp add: E_def exponent64_def)
  have "ulp64 x = 2 powr (of_int (E + 1022) + (- 1074))"
    by (simp add: ulp64_def E_def)
  also have "\<dots> = 2 powr (of_int (E + 1022)) * 2 powr (- 1074)"
    by (simp only: powr_add)
  also have "2 powr (of_int (E + 1022)) = (of_int (2 ^ nat (E + 1022)) :: real)"
    using E powr_real_of_int [of 2 "E + 1022"] by simp
  finally have "x = of_int (round_even (x / ulp64 x) * 2 ^ nat (E + 1022)) * 2 powr (- 1074)"
    using r False by (simp add: round64_def)
  then show ?thesis by blast
qed

lemma grid_gap:
  assumes "binary64 a = Fin a" "binary64 b = Fin b" "a < b"
  shows "2 powr (- 1074) \<le> b - a"
proof -
  obtain k l :: int where a: "a = of_int k * 2 powr (- 1074)" and b: "b = of_int l * 2 powr (- 1074)"
    using binary64_grid assms(1,2) by blast
  have p: "(0 :: real) < 2 powr (- 1074)" by simp
  have "of_int k * 2 powr (- 1074) < of_int l * (2 powr (- 1074) :: real)"
    using assms(3) a b by simp
  then have "(of_int k :: real) < of_int l" using p by (simp only: mult_less_cancel_right_pos)
  then have "k + 1 \<le> l" by simp
  then have "(of_int k :: real) + 1 \<le> of_int l" by (metis of_int_1 of_int_add of_int_le_iff)
  then have "(of_int k + 1) * 2 powr (- 1074) \<le> of_int l * (2 powr (- 1074) :: real)"
    using p by (simp only: mult_le_cancel_right_pos)
  then show ?thesis unfolding a b by (simp add: algebra_simps)
qed

lemma normal_bound:
  assumes "n \<le> 1022"
  shows "2 powr (- 1022) \<le> (1 :: real) / 2 ^ n"
proof -
  have "(1 :: real) / 2 ^ n = 2 powr (- real n)"
    by (simp add: powr_minus powr_realpow divide_inverse)
  moreover have "(2 :: real) powr (- 1022) \<le> 2 powr (- real n)"
    by (rule powr_mono) (use assms in simp_all)
  ultimately show ?thesis by simp
qed

lemma powr_neg_nat: "(2 :: real) powr (- real n) = 1 / 2 ^ n"
  by (simp add: powr_minus powr_realpow divide_inverse)

lemma round64_at_most_double:
  assumes "2 powr (- 1022) \<le> x"
  shows "round64 x \<le> 2 * x"
proof -
  have x: "0 < x" using assms by (smt (verit) powr_gt_zero)
  have "2 powr (- 1022) \<le> \<bar>x\<bar>" using assms x by simp
  from round64_rel_error [OF this] have "\<bar>round64 x - x\<bar> \<le> x / 2 ^ 53" using x by simp
  moreover have "x / 2 ^ 53 \<le> x" using x by (simp add: field_simps)
  ultimately show ?thesis by linarith
qed

lemma round64_small:
  assumes "0 \<le> x" "x \<le> 2 powr (- 1022)"
  shows "round64 x \<le> 1"
proof -
  have "(2 :: real) powr (- 1022) \<le> 1 / 2 ^ 0" by (rule normal_bound) simp
  then have "x \<le> real 1" using assms(2) by simp
  from round64_le_nat [OF this] show ?thesis by simp
qed

lemma quotient_finite:
  assumes "binary64 x = Fin d" "0 \<le> d"
  shows "\<exists>w. binary64 (d / 40) = Fin w \<and> 0 \<le> w"
proof -
  have d: "d < overflow64"
    using assms(1) by (auto simp: binary64_def Let_def split: if_splits)
  have nn: "0 \<le> round64 (d / 40)" using assms(2) by (intro round64_nonneg) simp
  have "round64 (d / 40) < overflow64"
  proof (cases "2 powr (- 1022) \<le> d / 40")
    case True
    from round64_at_most_double [OF this] have "round64 (d / 40) \<le> d" using assms(2) by simp
    then show ?thesis using d by linarith
  next
    case False
    then have "round64 (d / 40) \<le> 1" using assms(2) by (intro round64_small) simp_all
    moreover have "(1 :: real) < overflow64" using overflow64_large by (simp add: order_less_le_trans)
    ultimately show ?thesis by linarith
  qed
  then have "\<bar>round64 (d / 40)\<bar> < overflow64" using nn by simp
  from binary64_Fin [OF this] show ?thesis using nn by blast
qed

lemma exponent64_mono:
  assumes "0 < x" "x \<le> y"
  shows "exponent64 x \<le> exponent64 y"
proof -
  have "log 2 x \<le> log 2 y" using assms by simp
  then have "\<lfloor>log 2 x\<rfloor> \<le> \<lfloor>log 2 y\<rfloor>" by (rule floor_mono)
  then show ?thesis using assms by (simp add: exponent64_def)
qed

lemma round64_le_binary64:
  assumes "0 < x" "x \<le> y" "round64 y = y"
  shows "round64 x \<le> y"
proof -
  have y: "0 < y" using assms by simp
  have le: "exponent64 x \<le> exponent64 y" by (rule exponent64_mono [OF assms(1,2)])
  have r: "round64 x = of_int (round_even (x / ulp64 x)) * ulp64 x"
    using assms(1) by (simp add: round64_def)
  show ?thesis
  proof (cases "exponent64 x = exponent64 y")
    case True
    then have u: "ulp64 y = ulp64 x" by (simp add: ulp64_def)
    have yy: "y = of_int (round_even (y / ulp64 x)) * ulp64 x"
      using assms(3) y by (simp add: round64_def u)
    then have "y / ulp64 x = of_int (round_even (y / ulp64 x))"
      by (metis nonzero_mult_div_cancel_right ulp64_neq_0)
    moreover have "x / ulp64 x \<le> y / ulp64 x"
      using assms(2) by (simp add: divide_right_mono)
    ultimately have "x / ulp64 x \<le> of_int (round_even (y / ulp64 x))" by simp
    then have "round_even (x / ulp64 x) \<le> round_even (y / ulp64 x)" by (rule round_even_le)
    then have "(of_int (round_even (x / ulp64 x)) :: real) \<le> of_int (round_even (y / ulp64 x))"
      by simp
    then have "of_int (round_even (x / ulp64 x)) * ulp64 x \<le> of_int (round_even (y / ulp64 x)) * ulp64 x"
      by (rule mult_right_mono) simp
    then show ?thesis using r yy by simp
  next
    case False
    then have lt: "exponent64 x + 1 \<le> exponent64 y" using le by simp
    then have "- 1022 < exponent64 y" by (simp add: exponent64_def)
    then have ey: "exponent64 y = \<lfloor>log 2 \<bar>y\<bar>\<rfloor>" by (simp add: exponent64_def max_def split: if_splits)
    have "2 powr (of_int (exponent64 y)) \<le> \<bar>y\<bar>"
      unfolding ey by (rule floor_log2_bounds(1)) (use y in simp)
    then have y_lo: "2 powr (of_int (exponent64 y)) \<le> y" using y by simp
    have "\<bar>x\<bar> < 2 powr (of_int (\<lfloor>log 2 \<bar>x\<bar>\<rfloor> + 1))"
      by (rule floor_log2_bounds(2)) (use assms(1) in simp)
    moreover have "2 powr (of_int (\<lfloor>log 2 \<bar>x\<bar>\<rfloor> + 1)) \<le> (2 :: real) powr (of_int (exponent64 x + 1))"
      by (rule powr_mono) (simp_all add: exponent64_def)
    ultimately have "\<bar>x\<bar> < 2 powr (of_int (exponent64 x + 1))" by (rule less_le_trans)
    then have x_hi: "x < 2 powr (of_int (exponent64 x + 1))" using assms(1) by simp
    have split: "(2 :: real) powr (of_int (exponent64 x + 1)) = 2 ^ 53 * ulp64 x"
    proof -
      have "(2 :: real) powr (of_int (exponent64 x + 1)) = 2 powr (53 + of_int (exponent64 x - 52))"
        by (simp add: add.commute)
      also have "\<dots> = 2 powr 53 * 2 powr (of_int (exponent64 x - 52))"
        by (simp only: powr_add)
      also have "(2 :: real) powr 53 = 2 ^ 53"
        using powr_realpow [of 2 53] by simp
      finally show ?thesis by (simp only: ulp64_def)
    qed
    have "x / ulp64 x \<le> 2 ^ 53"
      using x_hi unfolding split by (simp add: pos_divide_le_eq)
    then have "x / ulp64 x \<le> of_int (2 ^ 53)" by simp
    then have "round_even (x / ulp64 x) \<le> 2 ^ 53" by (rule round_even_le)
    then have "(of_int (round_even (x / ulp64 x)) :: real) \<le> of_int (2 ^ 53)"
      by (simp only: of_int_le_iff)
    then have "of_int (round_even (x / ulp64 x)) * ulp64 x \<le> of_int (2 ^ 53) * ulp64 x"
      by (rule mult_right_mono) simp
    then have "round64 x \<le> 2 powr (of_int (exponent64 x + 1))"
      unfolding r split by simp
    also have "\<dots> \<le> 2 powr (of_int (exponent64 y))"
      by (rule powr_mono) (use lt in simp_all)
    finally show ?thesis using y_lo by linarith
  qed
qed

lemma binary64_grid_32:
  assumes "binary64 x = Fin x" "32 \<le> x"
  shows "\<exists>k :: int. x = of_int k / 2 ^ 47"
proof -
  have r: "round64 x = x" using assms(1) by (auto simp: binary64_def Let_def split: if_splits)
  have x: "x \<noteq> 0" "0 < x" using assms(2) by simp_all
  define E where "E = exponent64 x"
  have "log 2 32 \<le> log 2 x" using assms(2) by simp
  moreover have "log 2 32 = 5" using log_pow_cancel [of 2 5] by simp
  ultimately have "5 \<le> \<lfloor>log 2 x\<rfloor>" by (simp add: le_floor_iff)
  then have E: "5 \<le> E" using x by (simp add: E_def exponent64_def)
  have "ulp64 x = 2 powr (of_int (E - 5) + (- 47))"
    by (simp add: ulp64_def E_def)
  also have "\<dots> = 2 powr (of_int (E - 5)) * 2 powr (- 47)"
    by (simp only: powr_add)
  also have "2 powr (of_int (E - 5)) = (of_int (2 ^ nat (E - 5)) :: real)"
    using E powr_real_of_int [of 2 "E - 5"] by simp
  also have "(2 :: real) powr (- 47) = 1 / 2 ^ 47"
    using powr_neg_nat [of 47] by simp
  finally have u: "ulp64 x = of_int (2 ^ nat (E - 5)) * (1 / 2 ^ 47)" .
  define K where "K = round_even (x / ulp64 x)"
  have "x = of_int K * ulp64 x" using r x by (simp add: round64_def K_def)
  then have "x = of_int K * (of_int (2 ^ nat (E - 5)) * (1 / 2 ^ 47))" by (simp only: u)
  then have "x = of_int (K * 2 ^ nat (E - 5)) / 2 ^ 47" by simp
  then show ?thesis by blast
qed

lemma grid_gap_32:
  assumes "binary64 a = Fin a" "binary64 b = Fin b" "32 \<le> a" "a < b"
  shows "1 / 2 ^ 47 \<le> b - a"
proof -
  have "32 \<le> b" using assms(3,4) by simp
  from binary64_grid_32 [OF assms(2) this] obtain l :: int where b: "b = of_int l / 2 ^ 47"
    by blast
  from binary64_grid_32 [OF assms(1,3)] obtain k :: int where a: "a = of_int k / 2 ^ 47"
    by blast
  have "(of_int k :: real) < of_int l" using assms(4) a b by (simp add: divide_less_cancel)
  then have "k + 1 \<le> l" by simp
  then have "(of_int k :: real) + 1 \<le> of_int l" by (metis of_int_1 of_int_add of_int_le_iff)
  then show ?thesis unfolding a b by (simp add: field_simps)
qed

text \<open>With no rounding the operations, the statistics and the distribution are the exact
  ones.\<close>

lemma fl_exact [simp]:
  "fl_add Fin x y = x + y" "fl_sub Fin x y = x - y" "fl_mul Fin x y = x * y"
  "fl_div Fin x y = x / y" "fl_sqrt Fin x = Math_sqrt x"
  by (cases x; cases y; simp add: fl_sub_def minus_jsnum_def)+

lemma fl_pow_exact [simp]: "fl_pow Fin x n = Math_pow x n"
  by (induction n) simp_all

lemma fl_add_exact_fun [simp]: "fl_add Fin = (+)"
  by (intro ext) simp

lemma stats_fields_fl_exact: "stats_fields_fl Fin sims vals = stats_fields sims vals"
  by (simp add: stats_fields_fl_def stats_fields_def Let_def cong: sum.case_cong)

lemma stats_fl_exact: "stats_fl Fin a h = stats a h"
  by (simp add: stats_fl_def stats_def stats_fields_fl_exact)

lemma distribution_fl_exact: "distribution_fl Fin sims st = distribution sims st"
  by (simp add: distribution_fl_def distribution_def bin_index_fl_def bin_index_def Let_def)

text \<open>The roundings of the examples.\<close>

lemma half_sums:
  "binary64 (1 / 2) = Fin (1 / 2)"
  "binary64 (1 / 2 + 1 / 2 ^ 53) = Fin (1 / 2 + 1 / 2 ^ 53)"
  "binary64 (1 + 1 / 2 ^ 53) = Fin 1"
  "binary64 (3 / 2 + 1 / 2 ^ 53) = Fin (3 / 2)"
  "binary64 (1 + 1 / 2 ^ 52) = Fin (1 + 1 / 2 ^ 52)"
  "binary64 (3 / 2 + 1 / 2 ^ 52) = Fin (3 / 2 + 1 / 2 ^ 52)"
  "binary64 (1 / 2 + 1 / (3 * 2 ^ 52)) = Fin (1 / 2 + 1 / 2 ^ 53)"
  "binary64 (50 + 100 / 2 ^ 53) = Fin (50 + 1 / 2 ^ 46)"
proof -
  show "binary64 (1 / 2) = Fin (1 / 2)"
    using binary64_near [of "1 / 2" 53 "2 ^ 52"] by simp
  show "binary64 (1 / 2 + 1 / 2 ^ 53) = Fin (1 / 2 + 1 / 2 ^ 53)"
    using binary64_near [of "1 / 2 + 1 / 2 ^ 53" 53 "2 ^ 52 + 1"] by simp
  show "binary64 (1 + 1 / 2 ^ 53) = Fin 1"
    using binary64_tie_even [of "1 + 1 / 2 ^ 53" 52 "2 ^ 52"] by simp
  show "binary64 (3 / 2 + 1 / 2 ^ 53) = Fin (3 / 2)"
    using binary64_tie_even [of "3 / 2 + 1 / 2 ^ 53" 52 "3 * 2 ^ 51"] by simp
  show "binary64 (1 + 1 / 2 ^ 52) = Fin (1 + 1 / 2 ^ 52)"
    using binary64_near [of "1 + 1 / 2 ^ 52" 52 "2 ^ 52 + 1"] by simp
  show "binary64 (3 / 2 + 1 / 2 ^ 52) = Fin (3 / 2 + 1 / 2 ^ 52)"
    using binary64_near [of "3 / 2 + 1 / 2 ^ 52" 52 "3 * 2 ^ 51 + 1"] by simp
  show "binary64 (1 / 2 + 1 / (3 * 2 ^ 52)) = Fin (1 / 2 + 1 / 2 ^ 53)"
    using binary64_near [of "1 / 2 + 1 / (3 * 2 ^ 52)" 53 "2 ^ 52 + 1"] by simp
  show "binary64 (50 + 100 / 2 ^ 53) = Fin (50 + 1 / 2 ^ 46)"
    using binary64_near [of "50 + 100 / 2 ^ 53" 47 "50 * 2 ^ 47 + 2"] by simp
qed

lemma sixths:
  "binary64 (1 / 6) = Fin (6004799503160661 / 2 ^ 55)"
  "binary64 (6004799503160661 / 2 ^ 55 * 100) = Fin (4691249611844266 / 2 ^ 48)"
  "binary64 (5 / 6) = Fin (7505999378950827 / 2 ^ 53)"
  "binary64 (7505999378950827 / 2 ^ 53 * 100) = Fin (5864062014805334 / 2 ^ 46)"
  "binary64 (1 / 4) = Fin (1 / 4)"
  "binary64 (1 / 8) = Fin (1 / 8)"
  "binary64 (481 / 8) = Fin (481 / 8)"
  "binary64 (79 / 2) = Fin (79 / 2)"
  "binary64 (79 / 8) = Fin (79 / 8)"
  "binary64 (559 / 8) = Fin (559 / 8)"
proof -
  show "binary64 (1 / 6) = Fin (6004799503160661 / 2 ^ 55)"
    using binary64_near [of "1 / 6" 55 6004799503160661] by simp
  show "binary64 (6004799503160661 / 2 ^ 55 * 100) = Fin (4691249611844266 / 2 ^ 48)"
    using binary64_near [of "6004799503160661 / 2 ^ 55 * 100" 48 4691249611844266] by simp
  show "binary64 (5 / 6) = Fin (7505999378950827 / 2 ^ 53)"
    using binary64_near [of "5 / 6" 53 7505999378950827] by simp
  show "binary64 (7505999378950827 / 2 ^ 53 * 100) = Fin (5864062014805334 / 2 ^ 46)"
    using binary64_near [of "7505999378950827 / 2 ^ 53 * 100" 46 5864062014805334] by simp
  show "binary64 (1 / 4) = Fin (1 / 4)"
    using binary64_near [of "1 / 4" 54 "2 ^ 52"] by simp
  show "binary64 (1 / 8) = Fin (1 / 8)"
    using binary64_near [of "1 / 8" 55 "2 ^ 52"] by simp
  show "binary64 (481 / 8) = Fin (481 / 8)"
    using binary64_near [of "481 / 8" 47 "481 * 2 ^ 44"] by simp
  show "binary64 (79 / 2) = Fin (79 / 2)"
    using binary64_near [of "79 / 2" 47 "79 * 2 ^ 46"] by simp
  show "binary64 (79 / 8) = Fin (79 / 8)"
    using binary64_near [of "79 / 8" 49 "79 * 2 ^ 46"] by simp
  show "binary64 (559 / 8) = Fin (559 / 8)"
    using binary64_near [of "559 / 8" 46 "559 * 2 ^ 43"] by simp
qed

lemma percent_fl_values:
  "percent_fl 1 2 = Fin 50"
  "percent_fl 1 6 = Fin (4691249611844266 / 2 ^ 48)"
  "percent_fl 5 6 = Fin (5864062014805334 / 2 ^ 46)"
proof -
  have "fl_div binary64 (js_of_nat 1) (js_of_nat 2) = Fin (1 / 2)"
    using half_sums(1) by (simp add: js_of_nat_def)
  moreover have "fl_mul binary64 (Fin (1 / 2)) (Fin 100) = Fin 50" by simp
  ultimately show "percent_fl 1 2 = Fin 50" by (simp only: percent_fl_def)
  have "fl_div binary64 (js_of_nat 1) (js_of_nat 6) = Fin (6004799503160661 / 2 ^ 55)"
    using sixths(1) by (simp add: js_of_nat_def)
  moreover have "fl_mul binary64 (Fin (6004799503160661 / 2 ^ 55)) (Fin 100) = Fin (4691249611844266 / 2 ^ 48)"
    using sixths(2) by simp
  ultimately show "percent_fl 1 6 = Fin (4691249611844266 / 2 ^ 48)" by (simp only: percent_fl_def)
  have "fl_div binary64 (js_of_nat 5) (js_of_nat 6) = Fin (7505999378950827 / 2 ^ 53)"
    using sixths(3) by (simp add: js_of_nat_def)
  moreover have "fl_mul binary64 (Fin (7505999378950827 / 2 ^ 53)) (Fin 100) = Fin (5864062014805334 / 2 ^ 46)"
    using sixths(4) by simp
  ultimately show "percent_fl 5 6 = Fin (5864062014805334 / 2 ^ 46)" by (simp only: percent_fl_def)
qed

lemma sample_values:
  "npv sample_half = Fin 60" "npv sample_above = Fin 70"
  "ms sample_half = Fin (1 / 2)" "ms sample_above = Fin (1 / 2 + 1 / 2 ^ 53)"
  by (simp_all add: sample_half_def sample_above_def)

section \<open>The statistics: facts\<close>

lemma length_insert_cmp [simp]: "length (insert_cmp cmp x ys) = Suc (length ys)"
  by (induction ys) simp_all

lemma length_js_sort [simp]: "length (js_sort cmp xs) = length xs"
  by (induction xs) (simp_all add: js_sort_def)

lemma mset_insert_cmp [simp]: "mset (insert_cmp cmp x ys) = add_mset x (mset ys)"
  by (induction ys) simp_all

lemma mset_js_sort [simp]: "mset (js_sort cmp xs) = mset xs"
  by (induction xs) (simp_all add: js_sort_def)

lemma stats_store:
  assumes "a < length h"
  shows "stats a h =
     (stats_fields (h ! a) (map npv (js_sort (\<lambda>x y. npv x - npv y) (h ! a))),
      h @ [js_sort (\<lambda>x y. npv x - npv y) (h ! a)])"
  using assms by (simp add: stats_def array_spread_def array_sort_def nth_append)

lemma inj_rank: "inj rank"
  by (rule injI) (auto simp: rank_def split: jsnum.splits)

lemma length_filter_perm:
  assumes "mset xs = mset ys"
  shows "length (filter P xs) = length (filter P ys)"
proof -
  have "size (mset (filter P xs)) = size (mset (filter P ys))"
    by (simp only: mset_filter assms)
  then show ?thesis by (simp only: size_mset)
qed

lemma stats_fields_Cons:
  "\<exists>st. stats_fields sims (v # vs) = Inr st \<and>
     positive st = js_of_nat (length (filter (\<lambda>s. num_gt (npv s) (Fin 0)) sims))
                     / js_of_nat (length sims) * Fin 100 \<and>
     min_v st = Math_min_spread (v # vs) \<and> max_v st = Math_max_spread (v # vs)"
  by (simp add: stats_fields_def Let_def)

lemma stats_fields_Nil: "stats_fields sims [] = Inl TypeError"
  by (simp add: stats_fields_def)

lemma cmp_rank_fl:
  assumes "u \<noteq> NaN" "v \<noteq> NaN" "is_binary64 u" "is_binary64 v"
  shows "num_lt (fl_sub binary64 u v) (Fin 0) \<longleftrightarrow> rank u < rank v"
proof (cases u)
  case (Fin a)
  show ?thesis
  proof (cases v)
    case v: (Fin b)
    have ra: "binary64 a = Fin a" and rb: "binary64 b = Fin b"
      using assms(3,4) Fin v by (simp_all add: is_binary64_def)
    have sub: "fl_sub binary64 (Fin a) (Fin b) = binary64 (a - b)" by (simp add: fl_sub_def)
    show ?thesis
    proof (cases "a < b")
      case True
      have "a - b \<le> - (2 powr (- 1074))" using grid_gap [OF ra rb True] by simp
      then have neg: "round64 (a - b) < 0" by (rule round64_neg)
      have "a - b \<le> 0" using True by simp
      from binary64_nonpos [OF this] neg have "num_lt (binary64 (a - b)) (Fin 0)"
        by (auto simp: binary64_def Let_def split: if_splits)
      then show ?thesis using True by (simp add: sub rank_def Fin v less_prod_def)
    next
      case False
      then have "0 \<le> a - b" by simp
      from binary64_nonneg [OF this] have "\<not> num_lt (binary64 (a - b)) (Fin 0)"
        by auto
      then show ?thesis using False by (simp add: sub rank_def Fin v less_prod_def)
    qed
  qed (use assms Fin in \<open>simp_all add: fl_sub_def rank_def less_prod_def\<close>)
next
  case PInf
  then show ?thesis using assms by (cases v) (simp_all add: fl_sub_def rank_def less_prod_def)
next
  case NInf
  then show ?thesis using assms by (cases v) (simp_all add: fl_sub_def rank_def less_prod_def)
next
  case NaN
  then show ?thesis using assms by simp
qed

lemma stats_store_fl:
  assumes "a < length h"
  shows "stats_fl rnd a h =
     (stats_fields_fl rnd (h ! a) (map npv (js_sort (\<lambda>x y. fl_sub rnd (npv x) (npv y)) (h ! a))),
      h @ [js_sort (\<lambda>x y. fl_sub rnd (npv x) (npv y)) (h ! a)])"
  using assms by (simp add: stats_fl_def array_spread_def array_sort_def nth_append)

lemma insert_cmp_insort_fl:
  assumes "npv x \<noteq> NaN" "is_binary64 (npv x)"
    and "\<forall>y \<in> set ys. npv y \<noteq> NaN \<and> is_binary64 (npv y)"
  shows "insert_cmp (\<lambda>a b. fl_sub binary64 (npv a) (npv b)) x ys = insort_key (\<lambda>s. rank (npv s)) x ys"
  using assms by (induction ys) (auto simp: cmp_rank_fl)

lemma js_sort_sort_key_fl:
  assumes "\<forall>y \<in> set xs. npv y \<noteq> NaN \<and> is_binary64 (npv y)"
  shows "js_sort (\<lambda>a b. fl_sub binary64 (npv a) (npv b)) xs = sort_key (\<lambda>s. rank (npv s)) xs"
  using assms
proof (induction xs)
  case Nil
  then show ?case by (simp add: js_sort_def)
next
  case (Cons x xs)
  then have "js_sort (\<lambda>a b. fl_sub binary64 (npv a) (npv b)) xs = sort_key (\<lambda>s. rank (npv s)) xs"
    by simp
  moreover have "\<forall>y \<in> set (sort_key (\<lambda>s. rank (npv s)) xs). npv y \<noteq> NaN \<and> is_binary64 (npv y)"
    using Cons.prems by simp
  ultimately show ?case
    using Cons.prems insert_cmp_insort_fl [of x "sort_key (\<lambda>s. rank (npv s)) xs"]
    by (simp add: js_sort_def sort_key_def)
qed

lemma sorted_vals_perm_fl:
  fixes xs ys :: "sample list"
  assumes "mset xs = mset ys" "\<forall>y \<in> set xs. npv y \<noteq> NaN \<and> is_binary64 (npv y)"
  shows "map npv (js_sort (\<lambda>a b. fl_sub binary64 (npv a) (npv b)) xs) =
         map npv (js_sort (\<lambda>a b. fl_sub binary64 (npv a) (npv b)) ys)"
proof -
  let ?f = "\<lambda>s. rank (npv s)"
  have ys: "\<forall>y \<in> set ys. npv y \<noteq> NaN \<and> is_binary64 (npv y)"
    using assms mset_eq_setD by blast
  have key: "map ?f (sort_key ?f zs) = sort (map ?f zs)" for zs :: "sample list"
    by (rule properties_for_sort [symmetric]) simp_all
  have "map ?f (sort_key ?f xs) = sort (map ?f xs)"
    by (rule key)
  also have "\<dots> = sort (map ?f ys)"
    by (rule properties_for_sort) (simp_all add: assms(1))
  also have "\<dots> = map ?f (sort_key ?f ys)"
    by (rule key [symmetric])
  finally have "map ?f (sort_key ?f xs) = map ?f (sort_key ?f ys)" .
  then have "map rank (map npv (sort_key ?f xs)) = map rank (map npv (sort_key ?f ys))"
    by (simp add: comp_def)
  then have "map npv (sort_key ?f xs) = map npv (sort_key ?f ys)"
    using inj_rank by (simp only: inj_map_eq_map)
  then show ?thesis
    by (simp only: js_sort_sort_key_fl [OF assms(2)] js_sort_sort_key_fl [OF ys])
qed

lemma stats_fields_fl_Cons:
  "\<exists>st. stats_fields_fl rnd sims (v # vs) = Inr st \<and>
     avgMs st = fl_mul rnd (fl_div rnd (foldl (\<lambda>acc s. fl_add rnd acc (ms s)) (Fin 0) sims)
                              (js_of_nat (length sims))) (Fin 100) \<and>
     min_v st = Math_min_spread (v # vs) \<and> max_v st = Math_max_spread (v # vs)"
  by (simp add: stats_fields_fl_def Let_def)

lemma stats_fields_fl_perm:
  fixes xs ys :: "sample list"
  assumes "mset xs = mset ys"
  shows "\<exists>st st'. stats_fields_fl rnd xs (v # vs) = Inr st \<and> stats_fields_fl rnd ys (v # vs) = Inr st' \<and>
           mean st' = mean st \<and> median st' = median st \<and> p10 st' = p10 st \<and> p90 st' = p90 st \<and>
           min_v st' = min_v st \<and> max_v st' = max_v st \<and> std st' = std st \<and>
           positive st' = positive st \<and> above80 st' = above80 st \<and> msAbove75 st' = msAbove75 st"
proof -
  have "length xs = length ys" using assms by (rule mset_eq_length)
  then show ?thesis
    by (simp add: stats_fields_fl_def Let_def length_filter_perm [OF assms])
qed

lemma stats_fl_perm:
  fixes h h' :: store
  assumes "a < length h" "b < length h'"
    and "mset (h' ! b) = mset (h ! a)" and "h ! a \<noteq> []" and "no_NaN_values (h ! a)"
    and "binary64_values (h ! a)"
  shows "\<exists>st st'. fst (stats_fl binary64 a h) = Inr st \<and> fst (stats_fl binary64 b h') = Inr st' \<and>
           mean st' = mean st \<and> median st' = median st \<and> p10 st' = p10 st \<and> p90 st' = p90 st \<and>
           min_v st' = min_v st \<and> max_v st' = max_v st \<and> std st' = std st \<and>
           positive st' = positive st \<and> above80 st' = above80 st \<and> msAbove75 st' = msAbove75 st"
proof -
  let ?cmp = "\<lambda>x y. fl_sub binary64 (npv x) (npv y)"
  have ok: "\<forall>s \<in> set (h ! a). npv s \<noteq> NaN \<and> is_binary64 (npv s)"
    using assms(5,6) by (simp add: no_NaN_values_def binary64_values_def list_all_iff)
  have eq: "map npv (js_sort ?cmp (h ! a)) = map npv (js_sort ?cmp (h' ! b))"
    by (rule sorted_vals_perm_fl [OF assms(3) [symmetric] ok])
  have "length (map npv (js_sort ?cmp (h ! a))) \<noteq> 0"
    using assms(4) by simp
  then obtain v vs where vals: "map npv (js_sort ?cmp (h ! a)) = v # vs"
    by (cases "map npv (js_sort ?cmp (h ! a))") simp_all
  show ?thesis
    using stats_fields_fl_perm [OF assms(3) [symmetric], of binary64 v vs]
    by (simp only: stats_store_fl [OF assms(1)] stats_store_fl [OF assms(2)] fst_conv eq [symmetric] vals)
qed

lemma stats_of_fl_nonempty:
  assumes "sims \<noteq> []"
  shows "stats_fl binary64 0 [sims] =
           (Inr (stats_of_fl sims), [sims, js_sort (\<lambda>x y. fl_sub binary64 (npv x) (npv y)) sims])"
    and "avgMs (stats_of_fl sims) =
           fl_mul binary64 (fl_div binary64 (foldl (\<lambda>acc s. fl_add binary64 acc (ms s)) (Fin 0) sims)
                              (js_of_nat (length sims))) (Fin 100)"
    and "min_v (stats_of_fl sims) =
           Math_min_spread (map npv (js_sort (\<lambda>x y. fl_sub binary64 (npv x) (npv y)) sims))"
    and "max_v (stats_of_fl sims) =
           Math_max_spread (map npv (js_sort (\<lambda>x y. fl_sub binary64 (npv x) (npv y)) sims))"
proof -
  let ?srt = "js_sort (\<lambda>x y. fl_sub binary64 (npv x) (npv y)) sims"
  have "length (map npv ?srt) \<noteq> 0" using assms by simp
  then obtain v vs where vals: "map npv ?srt = v # vs"
    by (cases "map npv ?srt") simp_all
  obtain st where st: "stats_fields_fl binary64 sims (v # vs) = Inr st"
    and f: "avgMs st = fl_mul binary64 (fl_div binary64 (foldl (\<lambda>acc s. fl_add binary64 acc (ms s)) (Fin 0) sims)
                              (js_of_nat (length sims))) (Fin 100)"
      "min_v st = Math_min_spread (v # vs)" "max_v st = Math_max_spread (v # vs)"
    using stats_fields_fl_Cons [of binary64 sims v vs] by blast
  have s: "stats_fl binary64 0 [sims] = (Inr st, [sims, ?srt])"
    using st vals by (simp add: stats_store_fl)
  then have "stats_of_fl sims = st" by (simp add: stats_of_fl_def)
  then show "stats_fl binary64 0 [sims] = (Inr (stats_of_fl sims), [sims, ?srt])"
    and "avgMs (stats_of_fl sims) =
           fl_mul binary64 (fl_div binary64 (foldl (\<lambda>acc s. fl_add binary64 acc (ms s)) (Fin 0) sims)
                              (js_of_nat (length sims))) (Fin 100)"
    and "min_v (stats_of_fl sims) = Math_min_spread (map npv ?srt)"
    and "max_v (stats_of_fl sims) = Math_max_spread (map npv ?srt)"
    using s f vals by simp_all
qed

lemma clamped_ms_bounds:
  assumes "clamped_ms sims" "s \<in> set sims"
  shows "\<exists>m. ms s = Fin m \<and> 1 / 2 \<le> m \<and> m \<le> 1"
proof -
  have "is_Fin (ms s) \<and> num_ge (ms s) (Fin 0.5) \<and> num_le (ms s) (Fin 0.95)"
    using assms by (simp add: clamped_ms_def list_all_iff)
  then show ?thesis by (cases "ms s") (auto simp: num_ge_def num_le_def)
qed

lemma ms_sum_error:
  fixes sims :: "sample list"
  assumes "clamped_ms sims" "length sims < 2 ^ 32"
  shows "\<exists>S. foldl (\<lambda>acc s. fl_add binary64 acc (ms s)) (Fin 0) sims = Fin S \<and>
           0 \<le> S \<and> S \<le> 2 * real (length sims) \<and>
           \<bar>S - (\<Sum>s\<leftarrow>sims. the_fin (ms s))\<bar> \<le> (real (length sims))\<^sup>2 / 2 ^ 53"
  using assms
proof (induction sims rule: rev_induct)
  case Nil
  then show ?case by simp
next
  case (snoc x xs)
  let ?n = "length xs"
  have c: "clamped_ms xs" using snoc.prems(1) by (simp add: clamped_ms_def)
  have n: "?n < 2 ^ 32" using snoc.prems(2) by simp
  from snoc.IH [OF c n] obtain S where S: "foldl (\<lambda>acc s. fl_add binary64 acc (ms s)) (Fin 0) xs = Fin S"
    "0 \<le> S" "S \<le> 2 * real ?n" "\<bar>S - (\<Sum>s\<leftarrow>xs. the_fin (ms s))\<bar> \<le> (real ?n)\<^sup>2 / 2 ^ 53"
    by blast
  obtain m where m: "ms x = Fin m" "1 / 2 \<le> m" "m \<le> 1"
    using clamped_ms_bounds [OF snoc.prems(1), of x] by auto
  define R where "R = round64 (S + m)"
  have hi: "S + m \<le> real (2 * (?n + 1))" using S(3) m(3) by simp
  have k: "2 * (?n + 1) < (2 :: nat) ^ 53"
  proof -
    have "2 * (?n + 1) \<le> 2 * (2 :: nat) ^ 32" using n by simp
    also have "\<dots> < 2 ^ 53" by simp
    finally show ?thesis .
  qed
  have b: "binary64 (S + m) = Fin R" "0 \<le> R" "R \<le> real (2 * (?n + 1))"
    using binary64_bounded [OF _ hi k] S(2) m(2) by (simp_all add: R_def)
  have "(2 :: real) powr (- 1022) \<le> 1 / 2 ^ 1" by (rule normal_bound) simp
  then have "2 powr (- 1022) \<le> \<bar>S + m\<bar>" using S(2) m(2) by simp
  from round64_rel_error [OF this] have "\<bar>R - (S + m)\<bar> \<le> (S + m) / 2 ^ 53"
    using S(2) m(2) by (simp add: R_def)
  moreover have "(S + m) / 2 ^ 53 \<le> (2 * real ?n + 1) / 2 ^ 53"
    using S(3) m(3) by (simp add: divide_right_mono)
  ultimately have e: "\<bar>R - (S + m)\<bar> \<le> (2 * real ?n + 1) / 2 ^ 53" by (rule order_trans)
  have "R - ((\<Sum>s\<leftarrow>xs. the_fin (ms s)) + m) = (R - (S + m)) + (S - (\<Sum>s\<leftarrow>xs. the_fin (ms s)))"
    by simp
  then have "\<bar>R - ((\<Sum>s\<leftarrow>xs. the_fin (ms s)) + m)\<bar>
      \<le> \<bar>R - (S + m)\<bar> + \<bar>S - (\<Sum>s\<leftarrow>xs. the_fin (ms s))\<bar>"
    by (simp only: abs_triangle_ineq)
  also have "\<dots> \<le> (2 * real ?n + 1) / 2 ^ 53 + (real ?n)\<^sup>2 / 2 ^ 53"
    by (rule add_mono [OF e S(4)])
  also have "\<dots> = (real (?n + 1))\<^sup>2 / 2 ^ 53"
    by (simp add: power2_eq_square field_simps)
  finally have err: "\<bar>R - ((\<Sum>s\<leftarrow>xs. the_fin (ms s)) + m)\<bar> \<le> (real (?n + 1))\<^sup>2 / 2 ^ 53" .
  have "foldl (\<lambda>acc s. fl_add binary64 acc (ms s)) (Fin 0) (xs @ [x]) = Fin R"
    by (simp add: S(1) m(1) b(1))
  then show ?case using b(2,3) err by (simp add: m(1))
qed

lemma avgMs_error:
  fixes sims :: "sample list"
  assumes "clamped_ms sims" "sims \<noteq> []" "length sims < 2 ^ 32"
  shows "\<exists>A. fl_mul binary64
                (fl_div binary64 (foldl (\<lambda>acc s. fl_add binary64 acc (ms s)) (Fin 0) sims)
                   (js_of_nat (length sims))) (Fin 100) = Fin A \<and>
           \<bar>A - 100 * ((\<Sum>s\<leftarrow>sims. the_fin (ms s)) / real (length sims))\<bar>
             \<le> (100 * real (length sims) + 400) / 2 ^ 53"
proof -
  define n where "n = real (length sims)"
  define T where "T = (\<Sum>s\<leftarrow>sims. the_fin (ms s))"
  obtain S where S: "foldl (\<lambda>acc s. fl_add binary64 acc (ms s)) (Fin 0) sims = Fin S"
    "0 \<le> S" "S \<le> 2 * n" "\<bar>S - T\<bar> \<le> n\<^sup>2 / 2 ^ 53"
    using ms_sum_error [OF assms(1,3)] unfolding n_def T_def by blast
  have n1: "1 \<le> n" using assms(2) by (cases sims) (simp_all add: n_def)
  have n32: "n \<le> 2 ^ 32" using assms(3) by (simp add: n_def less_imp_le)
  have "(\<Sum>s\<leftarrow>sims. 1 / 2) \<le> (\<Sum>s\<leftarrow>sims. the_fin (ms s))"
  proof (rule sum_list_mono)
    fix s assume "s \<in> set sims"
    from clamped_ms_bounds [OF assms(1) this] show "1 / 2 \<le> the_fin (ms s)" by auto
  qed
  then have T_lo: "n / 2 \<le> T" by (simp add: sum_list_triv n_def T_def)
  have "n * n \<le> n * 2 ^ 32" using n1 n32 by (intro mult_left_mono) simp_all
  then have "n\<^sup>2 / 2 ^ 53 \<le> n * 2 ^ 32 / 2 ^ 53"
    by (simp add: power2_eq_square divide_right_mono)
  also have "\<dots> \<le> n / 4" using n1 by simp
  finally have sq: "n\<^sup>2 / 2 ^ 53 \<le> n / 4" .
  have "- (S - T) \<le> n\<^sup>2 / 2 ^ 53" using S(4) by (rule abs_le_D2)
  then have S_lo: "n / 4 \<le> S" using sq T_lo by argo
  define x1 where "x1 = S / n"
  define q where "q = round64 x1"
  define x2 where "x2 = q * 100"
  define p where "p = round64 x2"
  have x1: "1 / 4 \<le> x1" "x1 \<le> 2" using S_lo S(3) n1 by (simp_all add: x1_def field_simps)
  have "(2 :: real) powr (- 1022) \<le> 1 / 2 ^ 2" by (rule normal_bound) simp
  then have "2 powr (- 1022) \<le> \<bar>x1\<bar>" using x1(1) by simp
  from round64_rel_error [OF this] have "\<bar>q - x1\<bar> \<le> x1 / 2 ^ 53"
    using x1(1) by (simp add: q_def)
  moreover have "x1 / 2 ^ 53 \<le> 2 / 2 ^ 53" using x1(2) by (simp add: divide_right_mono)
  ultimately have e1: "\<bar>q - x1\<bar> \<le> 2 / 2 ^ 53" by (rule order_trans)
  have b1: "binary64 x1 = Fin q" "q \<le> 2"
    using binary64_bounded [of x1 2] x1 by (simp_all add: q_def)
  have "- (q - x1) \<le> 2 / 2 ^ 53" using e1 by (rule abs_le_D2)
  then have q_lo: "1 / 8 \<le> q" using x1(1) by simp
  have x2: "1 \<le> x2" "x2 \<le> 200" using q_lo b1(2) by (simp_all add: x2_def)
  have "(2 :: real) powr (- 1022) \<le> 1 / 2 ^ 0" by (rule normal_bound) simp
  then have "2 powr (- 1022) \<le> \<bar>x2\<bar>" using x2(1) by simp
  from round64_rel_error [OF this] have "\<bar>p - x2\<bar> \<le> x2 / 2 ^ 53"
    using x2(1) by (simp add: p_def)
  moreover have "x2 / 2 ^ 53 \<le> 200 / 2 ^ 53" using x2(2) by (simp add: divide_right_mono)
  ultimately have e2: "\<bar>p - x2\<bar> \<le> 200 / 2 ^ 53" by (rule order_trans)
  have b2: "binary64 x2 = Fin p"
    using binary64_bounded [of x2 200] x2 by (simp_all add: p_def)
  have "\<bar>x1 - T / n\<bar> = \<bar>S - T\<bar> / n" using n1 by (simp add: x1_def diff_divide_distrib [symmetric])
  also have "\<dots> \<le> (n\<^sup>2 / 2 ^ 53) / n" by (rule divide_right_mono [OF S(4)]) (use n1 in simp)
  also have "\<dots> = n / 2 ^ 53" using n1 by (simp add: power2_eq_square)
  finally have e0: "\<bar>x1 - T / n\<bar> \<le> n / 2 ^ 53" .
  have "p - 100 * (T / n) = (p - x2) + (100 * (q - x1) + 100 * (x1 - T / n))"
    by (simp add: x2_def)
  then have "\<bar>p - 100 * (T / n)\<bar> \<le> \<bar>p - x2\<bar> + \<bar>100 * (q - x1) + 100 * (x1 - T / n)\<bar>"
    by (simp only: abs_triangle_ineq)
  also have "\<dots> \<le> \<bar>p - x2\<bar> + (\<bar>100 * (q - x1)\<bar> + \<bar>100 * (x1 - T / n)\<bar>)"
    by (intro add_left_mono abs_triangle_ineq)
  also have "\<dots> = \<bar>p - x2\<bar> + (100 * \<bar>q - x1\<bar> + 100 * \<bar>x1 - T / n\<bar>)"
    by (simp only: abs_mult abs_numeral)
  also have "\<dots> \<le> 200 / 2 ^ 53 + (100 * (2 / 2 ^ 53) + 100 * (n / 2 ^ 53))"
    by (intro add_mono mult_left_mono e0 e1 e2) simp_all
  also have "\<dots> = (100 * n + 400) / 2 ^ 53" by simp
  finally have err: "\<bar>p - 100 * (T / n)\<bar> \<le> (100 * n + 400) / 2 ^ 53" .
  have n0: "n \<noteq> 0" using n1 by simp
  have "fl_div binary64 (Fin S) (js_of_nat (length sims)) = Fin q"
    using n0 b1(1) by (simp add: js_of_nat_def n_def [symmetric] x1_def [symmetric])
  moreover have "fl_mul binary64 (Fin q) (Fin 100) = Fin p"
    using b2 by (simp add: x2_def [symmetric])
  ultimately have "fl_mul binary64
      (fl_div binary64 (foldl (\<lambda>acc s. fl_add binary64 acc (ms s)) (Fin 0) sims)
         (js_of_nat (length sims))) (Fin 100) = Fin p"
    by (simp only: S(1))
  then show ?thesis using err unfolding n_def T_def by blast
qed

lemma sum_list_perm:
  fixes f :: "'a \<Rightarrow> real"
  assumes "mset xs = mset ys"
  shows "(\<Sum>x\<leftarrow>xs. f x) = (\<Sum>x\<leftarrow>ys. f x)"
proof -
  have "sum_mset (mset (map f xs)) = sum_mset (mset (map f ys))"
    by (simp add: assms)
  then show ?thesis by (simp only: sum_mset_sum_list)
qed

lemma avgMs_order_error:
  fixes h h' :: store
  assumes "a < length h" "b < length h'"
    and "mset (h' ! b) = mset (h ! a)" and "h ! a \<noteq> []"
    and "clamped_ms (h ! a)" and "length (h ! a) < 2 ^ 32"
  shows "\<exists>st st'. fst (stats_fl binary64 a h) = Inr st \<and> fst (stats_fl binary64 b h') = Inr st' \<and>
           is_Fin (avgMs st) \<and> is_Fin (avgMs st') \<and>
           \<bar>the_fin (avgMs st') - the_fin (avgMs st)\<bar>
             \<le> (200 * real (length (h ! a)) + 800) / 2 ^ 53"
proof -
  let ?cmp = "\<lambda>x y. fl_sub binary64 (npv x) (npv y)"
  let ?xs = "h ! a"
  let ?ys = "h' ! b"
  have len: "length ?ys = length ?xs" using assms(3) by (rule mset_eq_length)
  have ne: "?ys \<noteq> []" using len assms(4) by auto
  have "set ?ys = set ?xs" using assms(3) by (rule mset_eq_setD)
  then have cl: "clamped_ms ?ys" using assms(5) by (simp add: clamped_ms_def list_all_iff)
  have T: "(\<Sum>s\<leftarrow>?ys. the_fin (ms s)) = (\<Sum>s\<leftarrow>?xs. the_fin (ms s))"
    by (rule sum_list_perm [OF assms(3)])
  obtain A where A: "fl_mul binary64
      (fl_div binary64 (foldl (\<lambda>acc s. fl_add binary64 acc (ms s)) (Fin 0) ?xs)
         (js_of_nat (length ?xs))) (Fin 100) = Fin A"
    "\<bar>A - 100 * ((\<Sum>s\<leftarrow>?xs. the_fin (ms s)) / real (length ?xs))\<bar>
       \<le> (100 * real (length ?xs) + 400) / 2 ^ 53"
    using avgMs_error [OF assms(5,4,6)] by blast
  obtain A' where A': "fl_mul binary64
      (fl_div binary64 (foldl (\<lambda>acc s. fl_add binary64 acc (ms s)) (Fin 0) ?ys)
         (js_of_nat (length ?ys))) (Fin 100) = Fin A'"
    "\<bar>A' - 100 * ((\<Sum>s\<leftarrow>?xs. the_fin (ms s)) / real (length ?xs))\<bar>
       \<le> (100 * real (length ?xs) + 400) / 2 ^ 53"
    using avgMs_error [OF cl ne] assms(6) unfolding len T by blast
  have "length (map npv (js_sort ?cmp ?xs)) \<noteq> 0" using assms(4) by simp
  then obtain v vs where vals: "map npv (js_sort ?cmp ?xs) = v # vs"
    by (cases "map npv (js_sort ?cmp ?xs)") simp_all
  have "length (map npv (js_sort ?cmp ?ys)) \<noteq> 0" using ne by simp
  then obtain v' vs' where vals': "map npv (js_sort ?cmp ?ys) = v' # vs'"
    by (cases "map npv (js_sort ?cmp ?ys)") simp_all
  obtain st where st: "stats_fields_fl binary64 ?xs (v # vs) = Inr st" "avgMs st = Fin A"
    using stats_fields_fl_Cons [of binary64 ?xs v vs] A(1) by auto
  obtain st' where st': "stats_fields_fl binary64 ?ys (v' # vs') = Inr st'" "avgMs st' = Fin A'"
    using stats_fields_fl_Cons [of binary64 ?ys v' vs'] A'(1) by auto
  have "\<bar>A' - A\<bar> \<le> (200 * real (length ?xs) + 800) / 2 ^ 53"
    using A(2) A'(2) by argo
  moreover have "fst (stats_fl binary64 a h) = Inr st" "fst (stats_fl binary64 b h') = Inr st'"
    by (simp_all add: stats_store_fl assms(1,2) vals vals' st(1) st'(1))
  ultimately show ?thesis using st(2) st'(2) by auto
qed

text \<open>
  Claim C4, in the arithmetic of binary64. On a population that is not empty, whose
  values are numbers of binary64 and none of them NaN, held at any address of any store,
  the statistics succeed, and on every permutation of it they return the same mean,
  median, percentiles, minimum, maximum and standard deviation and the same three
  fractions. The values are sorted before the first seven are taken, and the comparator
  \<^verbatim>\<open>a.npv - b.npv\<close> keeps its sign under rounding (the difference of two different numbers
  of binary64 does not round to 0), so these see the same array; the fractions are counts.
  The eleventh field, \<open>avgMs\<close>, is not among them: the \<open>ms\<close> are summed in the order of
  the population. When every \<open>ms\<close> lies between \<open>0.5\<close> and \<open>0.95\<close>, as the simulations
  clamp it, the two values of \<open>avgMs\<close> are finite and differ by at most
  \<open>(200 N + 800) / 2 ^ 53\<close>, where \<open>N\<close> is the number of samples: less than \<open>2.3e-10\<close> for
  the 10,000 samples of the simulations.
\<close>

theorem stats_permutation_binary64:
  fixes h h' :: store
  assumes "a < length h" "b < length h'"
    and "mset (h' ! b) = mset (h ! a)" and "h ! a \<noteq> []" and "no_NaN_values (h ! a)"
    and "binary64_values (h ! a)"
  shows "\<exists>st st'. fst (stats_fl binary64 a h) = Inr st \<and> fst (stats_fl binary64 b h') = Inr st' \<and>
           mean st' = mean st \<and> median st' = median st \<and> p10 st' = p10 st \<and> p90 st' = p90 st \<and>
           min_v st' = min_v st \<and> max_v st' = max_v st \<and> std st' = std st \<and>
           positive st' = positive st \<and> above80 st' = above80 st \<and> msAbove75 st' = msAbove75 st \<and>
           (clamped_ms (h ! a) \<and> length (h ! a) < 2 ^ 32 \<longrightarrow>
              is_Fin (avgMs st) \<and> is_Fin (avgMs st') \<and>
              \<bar>the_fin (avgMs st') - the_fin (avgMs st)\<bar>
                \<le> (200 * real (length (h ! a)) + 800) / 2 ^ 53)"
proof -
  obtain st st' where s: "fst (stats_fl binary64 a h) = Inr st" "fst (stats_fl binary64 b h') = Inr st'"
    and f: "mean st' = mean st \<and> median st' = median st \<and> p10 st' = p10 st \<and> p90 st' = p90 st \<and>
           min_v st' = min_v st \<and> max_v st' = max_v st \<and> std st' = std st \<and>
           positive st' = positive st \<and> above80 st' = above80 st \<and> msAbove75 st' = msAbove75 st"
    using stats_fl_perm [OF assms] by blast
  have "is_Fin (avgMs st) \<and> is_Fin (avgMs st') \<and>
        \<bar>the_fin (avgMs st') - the_fin (avgMs st)\<bar> \<le> (200 * real (length (h ! a)) + 800) / 2 ^ 53"
    if "clamped_ms (h ! a)" "length (h ! a) < 2 ^ 32"
    using avgMs_order_error [OF assms(1-4) that] s by auto
  then show ?thesis using s f by blast
qed

theorem stats_permutation_binary64_witness:
  "(0 :: nat) < length [[sample_half, sample_above, sample_above]] \<and>
   (0 :: nat) < length [[sample_above, sample_above, sample_half]] \<and>
   mset ([[sample_above, sample_above, sample_half]] ! 0) =
     mset ([[sample_half, sample_above, sample_above]] ! 0) \<and>
   [[sample_half, sample_above, sample_above]] ! 0 \<noteq> [] \<and>
   no_NaN_values ([[sample_half, sample_above, sample_above]] ! 0) \<and>
   binary64_values ([[sample_half, sample_above, sample_above]] ! 0) \<and>
   clamped_ms ([[sample_half, sample_above, sample_above]] ! 0) \<and>
   length ([[sample_half, sample_above, sample_above]] ! 0) < 2 ^ 32 \<and>
   (\<exists>st st'. fst (stats_fl binary64 0 [[sample_half, sample_above, sample_above]]) = Inr st \<and>
      fst (stats_fl binary64 0 [[sample_above, sample_above, sample_half]]) = Inr st' \<and>
      mean st' = mean st \<and> median st' = median st \<and> p10 st' = p10 st \<and> p90 st' = p90 st \<and>
      min_v st' = min_v st \<and> max_v st' = max_v st \<and> std st' = std st \<and>
      positive st' = positive st \<and> above80 st' = above80 st \<and> msAbove75 st' = msAbove75 st \<and>
      \<bar>the_fin (avgMs st') - the_fin (avgMs st)\<bar> \<le> 1400 / 2 ^ 53)"
proof -
  have h1: "(0 :: nat) < length [[sample_half, sample_above, sample_above]]" by simp
  have h2: "(0 :: nat) < length [[sample_above, sample_above, sample_half]]" by simp
  have h3: "mset ([[sample_above, sample_above, sample_half]] ! 0) =
      mset ([[sample_half, sample_above, sample_above]] ! 0)" by simp
  have h4: "[[sample_half, sample_above, sample_above]] ! 0 \<noteq> []" by simp
  have h5: "no_NaN_values ([[sample_half, sample_above, sample_above]] ! 0)"
    by (simp add: no_NaN_values_def sample_values)
  have h6: "binary64_values ([[sample_half, sample_above, sample_above]] ! 0)"
    by (simp add: binary64_values_def is_binary64_def sample_values)
  have h7: "clamped_ms ([[sample_half, sample_above, sample_above]] ! 0)"
    by (simp add: clamped_ms_def sample_values num_ge_def num_le_def)
  have h8: "length ([[sample_half, sample_above, sample_above]] ! 0) < 2 ^ 32" by simp
  have n: "(200 * real (length ([[sample_half, sample_above, sample_above]] ! 0)) + 800) = 1400"
    by simp
  from stats_permutation_binary64 [OF h1 h2 h3 h4 h5 h6] h7 h8
  have "\<exists>st st'. fst (stats_fl binary64 0 [[sample_half, sample_above, sample_above]]) = Inr st \<and>
      fst (stats_fl binary64 0 [[sample_above, sample_above, sample_half]]) = Inr st' \<and>
      mean st' = mean st \<and> median st' = median st \<and> p10 st' = p10 st \<and> p90 st' = p90 st \<and>
      min_v st' = min_v st \<and> max_v st' = max_v st \<and> std st' = std st \<and>
      positive st' = positive st \<and> above80 st' = above80 st \<and> msAbove75 st' = msAbove75 st \<and>
      \<bar>the_fin (avgMs st') - the_fin (avgMs st)\<bar> \<le> 1400 / 2 ^ 53"
    unfolding n by blast
  with h1 h2 h3 h4 h5 h6 h7 h8 show ?thesis by blast
qed

text \<open>
  The claim as stated (the same summary in all fields) fails on \<open>avgMs\<close>: rounded addition
  is not associative. For the samples \<open>a = (60, 0.5)\<close> and \<open>b = (70, 0.5000000000000001)\<close>
  the population \<open>[a, b, b]\<close> has the sum \<open>1.5\<close> of the \<open>ms\<close> and \<open>avgMs = 50\<close>, its
  permutation \<open>[b, b, a]\<close> the sum \<open>1.5000000000000002\<close> and
  \<open>avgMs = 50.000000000000014\<close>, which is \<open>50 + 2 ^ -46\<close>.
\<close>

theorem stats_permutation_binary64_counterexample:
  "mset [sample_above, sample_above, sample_half] = mset [sample_half, sample_above, sample_above] \<and>
   fst (stats_fl binary64 0 [[sample_half, sample_above, sample_above]]) =
     Inr (stats_of_fl [sample_half, sample_above, sample_above]) \<and>
   fst (stats_fl binary64 0 [[sample_above, sample_above, sample_half]]) =
     Inr (stats_of_fl [sample_above, sample_above, sample_half]) \<and>
   avgMs (stats_of_fl [sample_half, sample_above, sample_above]) = Fin 50 \<and>
   avgMs (stats_of_fl [sample_above, sample_above, sample_half]) = Fin (50 + 1 / 2 ^ 46)"
proof -
  let ?p = "[sample_half, sample_above, sample_above]"
  let ?q = "[sample_above, sample_above, sample_half]"
  note ms = sample_values(3,4)
  have p1: "fl_add binary64 (Fin 0) (Fin (1 / 2)) = Fin (1 / 2)"
    using half_sums(1) by simp
  have p2: "fl_add binary64 (Fin (1 / 2)) (Fin (1 / 2 + 1 / 2 ^ 53)) = Fin 1"
    using half_sums(3) by simp
  have p3: "fl_add binary64 (Fin 1) (Fin (1 / 2 + 1 / 2 ^ 53)) = Fin (3 / 2)"
    using half_sums(4) by simp
  have p4: "fl_div binary64 (Fin (3 / 2)) (js_of_nat 3) = Fin (1 / 2)"
    using half_sums(1) by (simp add: js_of_nat_def)
  have p5: "fl_mul binary64 (Fin (1 / 2)) (Fin 100) = Fin 50"
    by simp
  have q1: "fl_add binary64 (Fin 0) (Fin (1 / 2 + 1 / 2 ^ 53)) = Fin (1 / 2 + 1 / 2 ^ 53)"
    using half_sums(2) by simp
  have q2: "fl_add binary64 (Fin (1 / 2 + 1 / 2 ^ 53)) (Fin (1 / 2 + 1 / 2 ^ 53)) = Fin (1 + 1 / 2 ^ 52)"
    using half_sums(5) by simp
  have q3: "fl_add binary64 (Fin (1 + 1 / 2 ^ 52)) (Fin (1 / 2)) = Fin (3 / 2 + 1 / 2 ^ 52)"
    using half_sums(6) by simp
  have q4: "fl_div binary64 (Fin (3 / 2 + 1 / 2 ^ 52)) (js_of_nat 3) = Fin (1 / 2 + 1 / 2 ^ 53)"
    using half_sums(7) by (simp add: js_of_nat_def)
  have q5: "fl_mul binary64 (Fin (1 / 2 + 1 / 2 ^ 53)) (Fin 100) = Fin (50 + 1 / 2 ^ 46)"
    using half_sums(8) by simp
  have len: "js_of_nat (length ?p) = js_of_nat 3" "js_of_nat (length ?q) = js_of_nat 3"
    by (simp_all add: numeral_3_eq_3)
  have p: "?p \<noteq> []" and q: "?q \<noteq> []" by simp_all
  have "avgMs (stats_of_fl ?p) = Fin 50"
    by (simp only: stats_of_fl_nonempty(2) [OF p] foldl.simps ms len p1 p2 p3 p4 p5)
  moreover have "avgMs (stats_of_fl ?q) = Fin (50 + 1 / 2 ^ 46)"
    by (simp only: stats_of_fl_nonempty(2) [OF q] foldl.simps ms len q1 q2 q3 q4 q5)
  moreover have "mset ?q = mset ?p" by simp
  ultimately show ?thesis
    using stats_of_fl_nonempty(1) [OF p] stats_of_fl_nonempty(1) [OF q] by (simp only: fst_conv simp_thms)
qed

lemma num_ge_50_positive: "num_ge v (Fin 50) \<Longrightarrow> num_gt v (Fin 0)"
  by (cases v) (simp_all add: num_ge_def num_le_def num_gt_def)

text \<open>
  Claim C9. For the simulations of every recognized scenario (on every run of draws as in
  C1), the statistics succeed and their \<open>positive\<close> field is exactly 100: every \<open>npv\<close> is
  at least 50, so the condition \<open>npv > 0\<close> holds for all 10,000 samples.
\<close>

theorem positive_fraction:
  assumes "scenario \<in> set recognized"
    and "Math_random_draws random" and "cos_nonzero_at_zero_draws random"
  shows "\<exists>results st h'. simulations scenario random = Inr results \<and>
           stats 0 [results] = (Inr st, h') \<and> positive st = Fin 100"
proof -
  obtain results where res: "simulations scenario random = Inr results"
    and len: "length results = 10000"
    and rng: "\<forall>s \<in> set results. num_ge (npv s) (Fin 50)"
    using simulations_range [OF assms] by blast
  let ?vals = "map npv (js_sort (\<lambda>x y. npv x - npv y) results)"
  have "length ?vals \<noteq> 0" using len by simp
  then obtain v vs where "?vals = v # vs"
    by (cases ?vals) simp_all
  then obtain st where st: "stats_fields results ?vals = Inr st"
    and pos: "positive st =
        js_of_nat (length (filter (\<lambda>s. num_gt (npv s) (Fin 0)) results))
          / js_of_nat (length results) * Fin 100"
    using stats_fields_Cons [of results v vs] by auto
  have "filter (\<lambda>s. num_gt (npv s) (Fin 0)) results = results"
    using rng by (simp add: num_ge_50_positive)
  then have "positive st = Fin 100"
    using pos len by (simp add: js_of_nat_def)
  moreover have "stats 0 [results] = (Inr st, [results, js_sort (\<lambda>x y. npv x - npv y) results])"
    using st by (simp add: stats_store)
  ultimately show ?thesis using res by blast
qed

theorem positive_fraction_witness:
  "''optimistic'' \<in> set recognized \<and> Math_random_draws (const_draws (1 / 2)) \<and>
   cos_nonzero_at_zero_draws (const_draws (1 / 2)) \<and>
   (\<exists>results st h'. simulations ''optimistic'' (const_draws (1 / 2)) = Inr results \<and>
      stats 0 [results] = (Inr st, h') \<and> positive st = Fin 100)"
proof -
  have h1: "''optimistic'' \<in> set recognized" by (simp add: recognized_def)
  have h2: "Math_random_draws (const_draws (1 / 2))"
    by (simp add: Math_random_draws_def const_draws_def)
  have h3: "cos_nonzero_at_zero_draws (const_draws (1 / 2))"
    by (simp add: cos_nonzero_at_zero_draws_def const_draws_def)
  from h1 h2 h3 positive_fraction [OF h1 h2 h3] show ?thesis by blast
qed

text \<open>
  Claim C10. The statistics do not change the array they are given: they allocate one new
  array, the sorted copy, and leave every array of the store as it was. So the scatter,
  run on \<^verbatim>\<open>simulations\<close> afterwards, is the same as before: it maps the first 800
  samples in the order of generation.
\<close>

theorem stats_keeps_simulations:
  fixes h :: store
  assumes "a < length h" and "stats a h = (r, h')"
  shows "h' ! a = h ! a \<and> (\<forall>b<length h. h' ! b = h ! b) \<and> length h' = Suc (length h) \<and>
         h' ! length h = js_sort (\<lambda>x y. npv x - npv y) (h ! a) \<and>
         scatter (h' ! a) = scatter (h ! a) \<and>
         map (\<lambda>p. (pt_x p, pt_y p, risk p)) (scatter (h' ! a)) =
           map (\<lambda>s. (toFixed1 (ms s * Fin 100), toFixed1 (npv s), risk_of (ms s)))
             (take 800 (h ! a))"
proof -
  have h': "h' = h @ [js_sort (\<lambda>x y. npv x - npv y) (h ! a)]"
    using assms by (simp add: stats_store)
  show ?thesis
    using assms(1) by (simp add: h' nth_append scatter_def)
qed

theorem stats_keeps_simulations_witness:
  "(0 :: nat) < length [[sample_hi, sample_lo]] \<and>
   snd (stats 0 [[sample_hi, sample_lo]]) = [[sample_hi, sample_lo], [sample_lo, sample_hi]] \<and>
   map risk (scatter (snd (stats 0 [[sample_hi, sample_lo]]) ! 0)) = [Low, High]"
proof -
  have h: "(0 :: nat) < length [[sample_hi, sample_lo]]" by simp
  have s: "stats 0 [[sample_hi, sample_lo]] =
      (fst (stats 0 [[sample_hi, sample_lo]]), snd (stats 0 [[sample_hi, sample_lo]]))"
    by simp
  have srt: "js_sort (\<lambda>x y. npv x - npv y) [sample_hi, sample_lo] = [sample_lo, sample_hi]"
    by (simp add: js_sort_def sample_hi_def sample_lo_def minus_jsnum_def)
  have len: "length (snd (stats 0 [[sample_hi, sample_lo]])) = 2"
    using stats_keeps_simulations [OF h s] by simp
  have "snd (stats 0 [[sample_hi, sample_lo]]) = [[sample_hi, sample_lo], [sample_lo, sample_hi]]"
    using stats_keeps_simulations [OF h s] srt len
    by (auto simp: list_eq_iff_nth_eq less_Suc_eq numeral_2_eq_2)
  moreover have "map risk (scatter [sample_hi, sample_lo]) = [Low, High]"
    by (simp add: scatter_def risk_of_def num_gt_def sample_hi_def sample_lo_def)
  ultimately show ?thesis using stats_keeps_simulations [OF h s] by simp
qed

section \<open>The distribution: facts\<close>

lemma distribution_counts:
  "distribution sims st =
     Inr (filter (\<lambda>d. num_gt (bin_y d) (Fin 0))
            (map (\<lambda>(cnt, i). mk_bin st (length sims) cnt i)
               (zip (bin_counts sims st) [0..<length (bin_counts sims st)])))"
  by (simp add: distribution_def bin_counts_def mk_bin_def Let_def)

lemma length_dist_incr [simp]: "length (dist_incr cs idx) = length cs"
  by (simp add: dist_incr_def)

lemma length_foldl_dist_incr [simp]:
  "length (foldl (\<lambda>d s. dist_incr d (f s)) d0 sims) = length d0"
  by (induction sims arbitrary: d0) simp_all

lemma length_bin_counts [simp]: "length (bin_counts sims st) = 40"
  by (simp add: bin_counts_def)

lemma is_index_iff:
  assumes "i < n"
  shows "is_index idx n \<and> to_index idx = i \<longleftrightarrow> idx = js_of_nat i"
proof (cases idx)
  case (Fin r)
  show ?thesis
  proof
    assume a: "is_index idx n \<and> to_index idx = i"
    then have "of_int \<lfloor>r\<rfloor> = r" "0 \<le> r" "nat \<lfloor>r\<rfloor> = i"
      by (simp_all add: Fin is_index_def to_index_def)
    then have "r = real i"
      by (metis of_int_of_nat_eq of_nat_nat zero_le_floor)
    then show "idx = js_of_nat i" by (simp add: Fin js_of_nat_def)
  next
    assume "idx = js_of_nat i"
    then show "is_index idx n \<and> to_index idx = i"
      using assms by (simp add: js_of_nat_def is_index_def to_index_def)
  qed
qed (simp_all add: is_index_def js_of_nat_def)

lemma dist_incr_nth:
  assumes "i < length cs"
  shows "dist_incr cs idx ! i = cs ! i + (if idx = js_of_nat i then 1 else 0)"
proof (cases "is_index idx (length cs)")
  case True
  then show ?thesis
    using assms is_index_iff [OF assms, of idx]
    by (auto simp: dist_incr_def nth_list_update)
next
  case False
  then show ?thesis
    using is_index_iff [OF assms, of idx] by (auto simp: dist_incr_def)
qed

lemma foldl_dist_incr_nth:
  assumes "i < length d0"
  shows "foldl (\<lambda>d s. dist_incr d (f s)) d0 sims ! i =
           d0 ! i + length (filter (\<lambda>s. f s = js_of_nat i) sims)"
  using assms
proof (induction sims arbitrary: d0)
  case Nil
  then show ?case by simp
next
  case (Cons s sims)
  then show ?case by (simp add: dist_incr_nth)
qed

lemma bin_counts_nth:
  assumes "i < 40"
  shows "bin_counts sims st ! i =
     length (filter (\<lambda>s. bin_index st 40 ((max_v st - min_v st) / js_of_nat 40) s = js_of_nat i)
               sims)"
  using assms by (simp add: bin_counts_def foldl_dist_incr_nth)

lemma sum_list_dist_incr:
  "sum_list (dist_incr cs idx) = sum_list cs + (if is_index idx (length cs) then 1 else 0)"
proof (cases "is_index idx (length cs)")
  case True
  then have "to_index idx < length cs"
    by (cases idx) (simp_all add: is_index_def to_index_def)
  then show ?thesis
    using True by (simp add: dist_incr_def sum_list_update)
next
  case False
  then show ?thesis by (simp add: dist_incr_def)
qed

lemma sum_list_foldl_dist_incr:
  "sum_list (foldl (\<lambda>d s. dist_incr d (f s)) d0 sims) =
     sum_list d0 + length (filter (\<lambda>s. is_index (f s) (length d0)) sims)"
  by (induction sims arbitrary: d0) (simp_all add: sum_list_dist_incr)

lemma sum_list_bin_counts:
  "sum_list (bin_counts sims st) =
     length (filter (\<lambda>s. is_index (bin_index st 40 ((max_v st - min_v st) / js_of_nat 40) s) 40)
               sims)"
  by (simp add: bin_counts_def sum_list_foldl_dist_incr)

lemma foldl_dist_incr_none:
  assumes "\<forall>s \<in> set sims. \<not> is_index (f s) (length d0)"
  shows "foldl (\<lambda>d s. dist_incr d (f s)) d0 sims = d0"
  using assms by (induction sims arbitrary: d0) (simp_all add: dist_incr_def)

lemma num_lt_rank:
  assumes "u \<noteq> NaN" "v \<noteq> NaN"
  shows "num_lt u v \<longleftrightarrow> rank u < rank v"
  using assms by (cases u; cases v) (simp_all add: rank_def less_prod_def)

lemma Math_min_cases:
  assumes "a \<noteq> NaN" "v \<noteq> NaN"
  shows "Math_min a v \<noteq> NaN \<and> (Math_min a v = a \<or> Math_min a v = v) \<and>
         \<not> num_lt a (Math_min a v) \<and> \<not> num_lt v (Math_min a v)"
  using assms by (cases a; cases v) (simp_all add: Math_min_def)

lemma Math_max_cases:
  assumes "a \<noteq> NaN" "v \<noteq> NaN"
  shows "Math_max a v \<noteq> NaN \<and> (Math_max a v = a \<or> Math_max a v = v) \<and>
         \<not> num_lt (Math_max a v) a \<and> \<not> num_lt (Math_max a v) v"
  using assms by (cases a; cases v) (simp_all add: Math_max_def)

lemma num_lt_trans_le:
  assumes "\<not> num_lt b a" "\<not> num_lt c b" "a \<noteq> NaN" "b \<noteq> NaN" "c \<noteq> NaN"
  shows "\<not> num_lt c a"
  using assms by (simp add: num_lt_rank)

lemma foldl_Math_min_NaN [simp]: "foldl Math_min NaN vals = NaN"
  by (induction vals) simp_all

lemma foldl_Math_max_NaN [simp]: "foldl Math_max NaN vals = NaN"
  by (induction vals) simp_all

lemma foldl_Math_min_lower:
  assumes "foldl Math_min a vals \<noteq> NaN"
  shows "a \<noteq> NaN \<and> \<not> num_lt a (foldl Math_min a vals) \<and>
         (\<forall>v \<in> set vals. v \<noteq> NaN \<and> \<not> num_lt v (foldl Math_min a vals))"
  using assms
proof (induction vals arbitrary: a)
  case Nil
  then show ?case by (cases a) simp_all
next
  case (Cons v vs)
  let ?m = "foldl Math_min (Math_min a v) vs"
  from Cons.prems have m: "?m \<noteq> NaN" by simp
  from Cons.IH [OF m] have ih: "Math_min a v \<noteq> NaN" "\<not> num_lt (Math_min a v) ?m"
    "\<forall>u \<in> set vs. u \<noteq> NaN \<and> \<not> num_lt u ?m" by simp_all
  have av: "a \<noteq> NaN" "v \<noteq> NaN"
    using ih(1) by (auto simp: Math_min_def)
  have "rank ?m \<le> rank (Math_min a v)"
    using ih(1,2) m by (simp add: num_lt_rank not_less)
  moreover have "rank (Math_min a v) \<le> rank a" "rank (Math_min a v) \<le> rank v"
    using Math_min_cases [OF av] av by (auto simp: num_lt_rank not_less)
  ultimately have "rank ?m \<le> rank a" "rank ?m \<le> rank v"
    by (blast intro: order_trans)+
  then have "\<not> num_lt a ?m" "\<not> num_lt v ?m"
    using m av by (simp_all add: num_lt_rank not_less)
  then show ?case using av ih(3) by simp
qed

lemma foldl_Math_max_upper:
  assumes "foldl Math_max a vals \<noteq> NaN"
  shows "a \<noteq> NaN \<and> \<not> num_lt (foldl Math_max a vals) a \<and>
         (\<forall>v \<in> set vals. v \<noteq> NaN \<and> \<not> num_lt (foldl Math_max a vals) v)"
  using assms
proof (induction vals arbitrary: a)
  case Nil
  then show ?case by (cases a) simp_all
next
  case (Cons v vs)
  let ?m = "foldl Math_max (Math_max a v) vs"
  from Cons.prems have m: "?m \<noteq> NaN" by simp
  from Cons.IH [OF m] have ih: "Math_max a v \<noteq> NaN" "\<not> num_lt ?m (Math_max a v)"
    "\<forall>u \<in> set vs. u \<noteq> NaN \<and> \<not> num_lt ?m u" by simp_all
  have av: "a \<noteq> NaN" "v \<noteq> NaN"
    using ih(1) by (auto simp: Math_max_def)
  have "rank (Math_max a v) \<le> rank ?m"
    using ih(1,2) m by (simp add: num_lt_rank not_less)
  moreover have "rank a \<le> rank (Math_max a v)" "rank v \<le> rank (Math_max a v)"
    using Math_max_cases [OF av] av by (auto simp: num_lt_rank not_less)
  ultimately have "rank a \<le> rank ?m" "rank v \<le> rank ?m"
    by (blast intro: order_trans)+
  then have "\<not> num_lt ?m a" "\<not> num_lt ?m v"
    using m av by (simp_all add: num_lt_rank not_less)
  then show ?case using av ih(3) by simp
qed

lemma foldl_Math_min_member:
  "foldl Math_min a vals \<in> insert NaN (insert a (set vals))"
proof (induction vals arbitrary: a)
  case Nil
  then show ?case by simp
next
  case (Cons v vs)
  have "Math_min a v = NaN \<or> Math_min a v = a \<or> Math_min a v = v"
    by (auto simp: Math_min_def)
  then show ?case using Cons.IH [of "Math_min a v"] by auto
qed

lemma foldl_Math_max_member:
  "foldl Math_max a vals \<in> insert NaN (insert a (set vals))"
proof (induction vals arbitrary: a)
  case Nil
  then show ?case by simp
next
  case (Cons v vs)
  have "Math_max a v = NaN \<or> Math_max a v = a \<or> Math_max a v = v"
    by (auto simp: Math_max_def)
  then show ?case using Cons.IH [of "Math_max a v"] by auto
qed

lemma num_lt_antisym:
  assumes "\<not> num_lt u v" "\<not> num_lt v u" "u \<noteq> NaN" "v \<noteq> NaN"
  shows "u = v"
proof -
  have "rank u = rank v" using assms by (simp add: num_lt_rank)
  then show ?thesis using inj_rank by (simp add: inj_eq)
qed

lemma set_js_sort [simp]: "set (js_sort cmp xs) = set xs"
  using mset_js_sort [of cmp xs] by (rule mset_eq_setD)

lemma stats_fields_Inr:
  assumes "stats_fields sims vals = Inr st"
  shows "vals \<noteq> [] \<and> min_v st = Math_min_spread vals \<and> max_v st = Math_max_spread vals"
  using assms by (cases vals) (auto simp: stats_fields_def Let_def)

lemma stats_Inr:
  fixes h :: store
  assumes "a < length h" and "stats a h = (Inr st, h')"
  shows "h' ! a = h ! a" and "h ! a \<noteq> []"
    and "min_v st = Math_min_spread (map npv (js_sort (\<lambda>x y. npv x - npv y) (h ! a)))"
    and "max_v st = Math_max_spread (map npv (js_sort (\<lambda>x y. npv x - npv y) (h ! a)))"
proof -
  let ?vals = "map npv (js_sort (\<lambda>x y. npv x - npv y) (h ! a))"
  have st: "stats_fields (h ! a) ?vals = Inr st"
    and h': "h' = h @ [js_sort (\<lambda>x y. npv x - npv y) (h ! a)]"
    using assms by (simp_all add: stats_store)
  show "h' ! a = h ! a" using assms(1) by (simp add: h' nth_append)
  from stats_fields_Inr [OF st]
  show "min_v st = Math_min_spread ?vals" "max_v st = Math_max_spread ?vals" by simp_all
  from stats_fields_Inr [OF st] have "?vals \<noteq> []" by simp
  then show "h ! a \<noteq> []" by (auto simp: js_sort_def)
qed

lemma degenerate_index:
  assumes "Math_min_spread vals = m" "Math_max_spread vals = m"
    and "min_v st = m" "max_v st = m" "npv s \<in> set vals"
  shows "bin_index st 40 ((max_v st - min_v st) / js_of_nat 40) s = NaN"
proof (cases "m = NaN")
  case True
  then show ?thesis by (simp add: bin_index_def assms(3,4))
next
  case False
  have lo: "npv s \<noteq> NaN \<and> \<not> num_lt (npv s) m"
    using foldl_Math_min_lower [of PInf vals] assms(1,5) False
    by (auto simp: Math_min_spread_def)
  have hi: "\<not> num_lt m (npv s)"
    using foldl_Math_max_upper [of NInf vals] assms(2,5) False
    by (auto simp: Math_max_spread_def)
  have "npv s = m"
    using num_lt_antisym [of "npv s" m] lo hi False by simp
  then show ?thesis
    by (cases m) (simp_all add: bin_index_def assms(3,4) minus_jsnum_def js_of_nat_def)
qed

lemma distribution_no_index:
  assumes "\<forall>s \<in> set sims. bin_index st 40 ((max_v st - min_v st) / js_of_nat 40) s = NaN"
    and "sims \<noteq> []"
  shows "distribution sims st = Inr []"
proof -
  have "bin_counts sims st = replicate 40 0"
    unfolding bin_counts_def
    by (rule foldl_dist_incr_none) (simp add: assms(1) is_index_def)
  moreover have "\<not> num_gt (bin_y (mk_bin st (length sims) 0 i)) (Fin 0)" for i
    using assms(2) by (simp add: mk_bin_def js_of_nat_def num_gt_def)
  ultimately show ?thesis
    by (auto simp: distribution_counts filter_empty_conv dest!: set_zip_leftD)
qed

lemma distribution_degenerate_aux:
  fixes h :: store
  assumes "a < length h" and "stats a h = (Inr st, h')" and "max_v st = min_v st"
  shows "distribution (h' ! a) st = Inr []"
proof -
  let ?vals = "map npv (js_sort (\<lambda>x y. npv x - npv y) (h ! a))"
  note st = stats_Inr [OF assms(1,2)]
  have "bin_index st 40 ((max_v st - min_v st) / js_of_nat 40) s = NaN" if "s \<in> set (h ! a)" for s
  proof (rule degenerate_index [of ?vals "min_v st"])
    show "Math_min_spread ?vals = min_v st" by (simp only: st(3))
    show "Math_max_spread ?vals = min_v st" by (simp only: st(4) [symmetric] assms(3))
    show "max_v st = min_v st" by (rule assms(3))
    show "npv s \<in> set ?vals" using that by simp
  qed simp
  then show ?thesis
    using distribution_no_index [of "h ! a" st] st(1,2) by simp
qed

text \<open>
  Claim C5, as the code has it. The distribution has no check of the range. When the
  statistics of the population have \<open>max = min\<close>, the bin size is 0 (or NaN), every
  sample's bin index is NaN (\<open>0 / 0\<close>), no counter is incremented, and the distribution
  returns normally, with the empty sequence of bins.
\<close>

theorem distribution_degenerate:
  fixes h :: store
  assumes "a < length h" and "stats a h = (Inr st, h')" and "max_v st = min_v st"
  shows "distribution (h' ! a) st = Inr []"
  by (rule distribution_degenerate_aux [OF assms])

lemma js_sort_replicate:
  assumes "\<not> num_lt (cmp s s) (Fin 0)"
  shows "js_sort cmp (replicate n s) = replicate n s"
proof (induction n)
  case 0
  then show ?case by (simp add: js_sort_def)
next
  case (Suc n)
  have "insert_cmp cmp s (replicate n s) = s # replicate n s"
    using assms by (cases n) simp_all
  then show ?case using Suc by (simp add: js_sort_def)
qed

lemma foldl_Math_min_replicate:
  assumes "v \<noteq> NaN"
  shows "foldl Math_min v (replicate n v) = v"
  using assms by (induction n) (simp_all add: Math_min_def)

lemma foldl_Math_max_replicate:
  assumes "v \<noteq> NaN"
  shows "foldl Math_max v (replicate n v) = v"
  using assms by (induction n) (simp_all add: Math_max_def)

lemma stats_clamped:
  "\<exists>st. stats 0 [clamped_population] = (Inr st, [clamped_population, clamped_population]) \<and>
        min_v st = Fin 50 \<and> max_v st = Fin 50"
proof -
  let ?s = "\<lparr>npv = Fin 50, ms = Fin 0.5\<rparr>"
  have srt: "js_sort (\<lambda>x y. npv x - npv y) clamped_population = clamped_population"
    unfolding clamped_population_def
    by (rule js_sort_replicate) (simp add: minus_jsnum_def)
  have vals: "map npv clamped_population = Fin 50 # replicate 9999 (Fin 50)"
  proof -
    have "replicate 10000 (Fin 50) = Fin 50 # replicate 9999 (Fin 50)"
      by (simp only: replicate_Suc [symmetric]) simp
    then show ?thesis by (simp add: clamped_population_def)
  qed
  obtain st where st: "stats_fields clamped_population (map npv clamped_population) = Inr st"
    and mm: "min_v st = Math_min_spread (Fin 50 # replicate 9999 (Fin 50))"
      "max_v st = Math_max_spread (Fin 50 # replicate 9999 (Fin 50))"
    using stats_fields_Cons [of clamped_population "Fin 50" "replicate 9999 (Fin 50)"] vals
    by auto
  have "min_v st = Fin 50" "max_v st = Fin 50"
    using mm
    by (simp_all add: Math_min_spread_def Math_max_spread_def Math_min_def Math_max_def
        foldl_Math_min_replicate foldl_Math_max_replicate)
  then show ?thesis
    using st srt by (simp add: stats_store)
qed

lemma simulations_clamped:
  "simulations ''base'' (alternating_draws 0 (1 / 2)) = Inr clamped_population"
proof -
  have z: "z_variate (alternating_draws 0 (1 / 2) (2 * j)) (alternating_draws 0 (1 / 2) (2 * j + 1))
             = NInf" for j
    by (simp add: alternating_draws_def z_variate_zero)
  have q: "object_get params_table ''base'' =
      Own \<lparr>mean_p = Fin 89.4, std_p = Fin 11.2, ms_p = Fin 0.749\<rparr>"
    by (simp add: params_table_def)
  have "mk_sample \<lparr>mean_p = Fin 89.4, std_p = Fin 11.2, ms_p = Fin 0.749\<rparr> NInf =
          \<lparr>npv = Fin 50, ms = Fin 0.5\<rparr>"
    by (simp add: mk_sample_def Math_max_def Math_min_def)
  then show ?thesis
    using simulations_const [OF q z] by (simp add: clamped_population_def)
qed

theorem distribution_degenerate_witness:
  "(0 :: nat) < length [clamped_population] \<and>
   stats 0 [clamped_population] =
     (Inr (projr (fst (stats 0 [clamped_population]))), [clamped_population, clamped_population]) \<and>
   max_v (projr (fst (stats 0 [clamped_population]))) =
     min_v (projr (fst (stats 0 [clamped_population]))) \<and>
   distribution ([clamped_population, clamped_population] ! 0)
     (projr (fst (stats 0 [clamped_population]))) = Inr []"
proof -
  obtain st where st: "stats 0 [clamped_population] = (Inr st, [clamped_population, clamped_population])"
    and mm: "min_v st = Fin 50" "max_v st = Fin 50"
    using stats_clamped by blast
  have h1: "(0 :: nat) < length [clamped_population]" by simp
  have h3: "max_v st = min_v st" using mm by simp
  from distribution_degenerate [OF h1 st h3] h1 st h3 show ?thesis by simp
qed

text \<open>
  The claim as stated (a failure with \<open>DegenerateRange\<close>) fails on the simulations of the
  run of draws \<open>0, 1/2, 0, 1/2, ...\<close> for scenario \<open>base\<close>: all 10,000 samples are the
  clamped \<open>(50, 0.5)\<close>, the statistics have \<open>min = max = 50\<close>, and the distribution
  returns the empty sequence.
\<close>

theorem distribution_degenerate_counterexample:
  "simulations ''base'' (alternating_draws 0 (1 / 2)) = Inr clamped_population \<and>
   fst (stats 0 [clamped_population]) = Inr (projr (fst (stats 0 [clamped_population]))) \<and>
   min_v (projr (fst (stats 0 [clamped_population]))) = Fin 50 \<and>
   max_v (projr (fst (stats 0 [clamped_population]))) = Fin 50 \<and>
   distribution clamped_population (projr (fst (stats 0 [clamped_population]))) = Inr []"
proof -
  obtain st where st: "stats 0 [clamped_population] = (Inr st, [clamped_population, clamped_population])"
    and mm: "min_v st = Fin 50" "max_v st = Fin 50"
    using stats_clamped by blast
  have "distribution ([clamped_population, clamped_population] ! 0) st = Inr []"
    by (rule distribution_degenerate_aux [OF _ st]) (simp_all add: mm)
  then show ?thesis
    using st mm simulations_clamped by simp
qed

lemma is_index_of_int:
  assumes "0 \<le> m" "m < int n"
  shows "is_index (Fin (of_int m)) n"
  using assms by (simp add: is_index_def)

lemma zip_upt_nth:
  assumes "length cs = n"
  shows "zip cs [0..<n] = map (\<lambda>i. (cs ! i, i)) [0..<n]"
  using assms by (intro nth_equalityI) simp_all

lemma sum_list_scaled_counts:
  fixes cs :: "nat list"
  shows "(\<Sum>i\<leftarrow>[0..<length cs]. real (cs ! i) * k) = real (sum_list cs) * k"
proof -
  have "map (\<lambda>i. real (cs ! i) * k) [0..<length cs] = map (\<lambda>c. real c * k) (map ((!) cs) [0..<length cs])"
    by simp
  also have "\<dots> = map (\<lambda>c. real c * k) cs"
    by (simp only: map_nth)
  finally have "(\<Sum>i\<leftarrow>[0..<length cs]. real (cs ! i) * k) = (\<Sum>c\<leftarrow>cs. real c * k)"
    by simp
  also have "\<dots> = real (sum_list cs) * k"
    by (induction cs) (simp_all add: distrib_right)
  finally show ?thesis .
qed

lemma filter_upt_only_0:
  assumes "\<And>i. i < n \<Longrightarrow> P i \<longleftrightarrow> i = 0" and "0 < n"
  shows "filter P [0..<n] = [0]"
proof -
  have "filter P [0..<n] = filter (\<lambda>i. i = 0) [0..<n]"
    by (rule filter_cong) (simp_all add: assms(1))
  moreover have "[0..<n] = 0 # [Suc 0..<n]"
    using assms(2) by (simp add: upt_conv_Cons)
  ultimately show ?thesis
    by (simp add: filter_empty_conv)
qed

lemma sample_fields:
  "npv sample_lo = Fin 60" "npv sample_hi = Fin 90" "npv sample_top = PInf"
  by (simp_all add: sample_lo_def sample_hi_def sample_top_def)

lemma filter_upt_two:
  assumes "\<And>i. i < n \<Longrightarrow> P i \<longleftrightarrow> i = j \<or> i = k" and "j < k" and "k < n"
  shows "filter P [0..<n] = [j, k]"
proof -
  have split: "[0..<n] = [0..<j] @ j # [Suc j..<k] @ k # [Suc k..<n]"
    using assms(2,3)
    by (metis Suc_leI assms(2) less_imp_le_nat less_trans upt_add_eq_append upt_conv_Cons zero_le le_add_diff_inverse)
  have "filter P [0..<j] = []" "filter P [Suc j..<k] = []" "filter P [Suc k..<n] = []"
    using assms by (auto simp: filter_empty_conv)
  moreover have "P j" "P k" using assms by simp_all
  ultimately show ?thesis by (simp add: split)
qed

lemma distribution_fl_counts:
  "distribution_fl binary64 sims st =
     Inr (filter (\<lambda>d. num_gt (bin_y d) (Fin 0))
            (map (\<lambda>(cnt, i). mk_bin_fl st (length sims) cnt i)
               (zip (bin_counts_fl sims st) [0..<length (bin_counts_fl sims st)])))"
  by (simp add: distribution_fl_def bin_counts_fl_def mk_bin_fl_def percent_fl_def Let_def)

lemma length_bin_counts_fl [simp]: "length (bin_counts_fl sims st) = 40"
  by (simp add: bin_counts_fl_def)

lemma bin_counts_fl_nth:
  assumes "i < 40"
  shows "bin_counts_fl sims st ! i =
     length (filter (\<lambda>s. bin_index_fl binary64 st 40
                (fl_div binary64 (fl_sub binary64 (max_v st) (min_v st)) (js_of_nat 40)) s = js_of_nat i)
               sims)"
  using assms by (simp add: bin_counts_fl_def foldl_dist_incr_nth)

lemma bin_counts_fl_le:
  assumes "i < 40"
  shows "bin_counts_fl sims st ! i \<le> length sims"
  by (simp add: bin_counts_fl_nth [OF assms])

lemma sum_list_bin_counts_fl:
  "sum_list (bin_counts_fl sims st) =
     length (filter (\<lambda>s. is_index (bin_index_fl binary64 st 40
                (fl_div binary64 (fl_sub binary64 (max_v st) (min_v st)) (js_of_nat 40)) s) 40)
               sims)"
  by (simp add: bin_counts_fl_def sum_list_foldl_dist_incr)

lemma stats_fields_fl_Inr:
  assumes "stats_fields_fl rnd sims vals = Inr st"
  shows "vals \<noteq> [] \<and> min_v st = Math_min_spread vals \<and> max_v st = Math_max_spread vals"
  using assms by (cases vals) (auto simp: stats_fields_fl_def Let_def)

lemma stats_fl_Inr:
  fixes h :: store
  assumes "a < length h" and "stats_fl rnd a h = (Inr st, h')"
  shows "h' ! a = h ! a" and "h ! a \<noteq> []"
    and "min_v st = Math_min_spread (map npv (js_sort (\<lambda>x y. fl_sub rnd (npv x) (npv y)) (h ! a)))"
    and "max_v st = Math_max_spread (map npv (js_sort (\<lambda>x y. fl_sub rnd (npv x) (npv y)) (h ! a)))"
proof -
  let ?vals = "map npv (js_sort (\<lambda>x y. fl_sub rnd (npv x) (npv y)) (h ! a))"
  have st: "stats_fields_fl rnd (h ! a) ?vals = Inr st"
    and h': "h' = h @ [js_sort (\<lambda>x y. fl_sub rnd (npv x) (npv y)) (h ! a)]"
    using assms by (simp_all add: stats_store_fl)
  show "h' ! a = h ! a" using assms(1) by (simp add: h' nth_append)
  from stats_fields_fl_Inr [OF st]
  show "min_v st = Math_min_spread ?vals" "max_v st = Math_max_spread ?vals" by simp_all
  from stats_fields_fl_Inr [OF st] have "?vals \<noteq> []" by simp
  then show "h ! a \<noteq> []" by (auto simp: js_sort_def)
qed

lemma width_positive:
  assumes "fl_div binary64 (fl_sub binary64 hi_v lo_v) (js_of_nat 40) = Fin w" and "0 < w"
  shows "\<exists>lo hi. lo_v = Fin lo \<and> hi_v = Fin hi \<and> lo < hi"
proof -
  obtain d where d: "fl_sub binary64 hi_v lo_v = Fin d" and w: "binary64 (d / 40) = Fin w"
    using assms(1) by (cases "fl_sub binary64 hi_v lo_v") (simp_all add: js_of_nat_def)
  have dpos: "0 < d"
  proof (rule ccontr)
    assume "\<not> 0 < d"
    then have "d / 40 \<le> 0" by simp
    from binary64_nonpos [OF this] show False using w assms(2) by auto
  qed
  obtain lo hi where lo: "lo_v = Fin lo" and hi: "hi_v = Fin hi"
    using d by (cases hi_v; cases lo_v) (simp_all add: fl_sub_def)
  have r: "binary64 (hi - lo) = Fin d" using d by (simp add: lo hi fl_sub_def)
  have "lo < hi"
  proof (rule ccontr)
    assume "\<not> lo < hi"
    then have "hi - lo \<le> 0" by simp
    from binary64_nonpos [OF this] show False using r dpos by auto
  qed
  then show ?thesis using lo hi by blast
qed

lemma stats_fl_bounds:
  fixes h :: store
  assumes "a < length h" and "stats_fl rnd a h = (Inr st, h')"
    and "min_v st = Fin lo" and "max_v st = Fin hi"
  shows "\<forall>s \<in> set (h ! a). \<exists>v. npv s = Fin v \<and> lo \<le> v \<and> v \<le> hi"
proof
  fix s assume s: "s \<in> set (h ! a)"
  let ?vals = "map npv (js_sort (\<lambda>x y. fl_sub rnd (npv x) (npv y)) (h ! a))"
  note st = stats_fl_Inr [OF assms(1,2)]
  have mem: "npv s \<in> set ?vals" using s by simp
  have "foldl Math_min PInf ?vals = Fin lo" "foldl Math_max NInf ?vals = Fin hi"
    using st(3,4) assms(3,4) by (simp_all add: Math_min_spread_def Math_max_spread_def)
  then have mn: "foldl Math_min PInf ?vals \<noteq> NaN" "foldl Math_max NInf ?vals \<noteq> NaN"
    by simp_all
  have "npv s \<noteq> NaN" "\<not> num_lt (npv s) (Fin lo)"
    using foldl_Math_min_lower [OF mn(1)] mem st(3) assms(3) by (auto simp: Math_min_spread_def)
  moreover have "\<not> num_lt (Fin hi) (npv s)"
    using foldl_Math_max_upper [OF mn(2)] mem st(4) assms(4) by (auto simp: Math_max_spread_def)
  ultimately show "\<exists>v. npv s = Fin v \<and> lo \<le> v \<and> v \<le> hi"
    by (cases "npv s") simp_all
qed

lemma bin_index_fl_valid:
  assumes "min_v st = Fin lo" "npv s = Fin v" "lo \<le> v" "0 < w"
  shows "is_index (bin_index_fl binary64 st 40 (Fin w) s) 40"
proof -
  have top: "fl_sub binary64 (js_of_nat 40) (Fin 1) = Fin 39"
    by (simp add: fl_sub_def js_of_nat_def)
  have i39: "is_index (Fin 39) 40" using is_index_of_int [of 39 40] by simp
  have m1: "Math_min (Fin 39) PInf = Fin 39" by (simp add: Math_min_def)
  have m2: "Math_min (Fin 39) (Fin (of_int k)) = Fin (of_int (min 39 k))" for k :: int
    by (simp add: Math_min_def min_def)
  have sub: "fl_sub binary64 (npv s) (min_v st) = binary64 (v - lo)"
    by (simp add: fl_sub_def assms(1,2))
  have idx: "bin_index_fl binary64 st 40 (Fin w) s =
      Math_min (Fin 39) (Math_floor (fl_div binary64 (binary64 (v - lo)) (Fin w)))"
    by (simp only: bin_index_fl_def top sub)
  have "0 \<le> v - lo" using assms(3) by simp
  from binary64_nonneg [OF this] show ?thesis
  proof
    assume "\<exists>d. binary64 (v - lo) = Fin d \<and> 0 \<le> d"
    then obtain d where d: "binary64 (v - lo) = Fin d" "0 \<le> d" by blast
    have q: "fl_div binary64 (Fin d) (Fin w) = binary64 (d / w)" using assms(4) by simp
    have "0 \<le> d / w" using d(2) assms(4) by simp
    from binary64_nonneg [OF this] show ?thesis
    proof
      assume "\<exists>q. binary64 (d / w) = Fin q \<and> 0 \<le> q"
      then obtain q where qq: "binary64 (d / w) = Fin q" "0 \<le> q" by blast
      have idx': "bin_index_fl binary64 st 40 (Fin w) s = Fin (of_int (min 39 \<lfloor>q\<rfloor>))"
        by (simp only: idx d(1) q qq(1) Math_floor.simps m2)
      have "0 \<le> min 39 \<lfloor>q\<rfloor>" "min 39 \<lfloor>q\<rfloor> < int 40" using qq(2) by simp_all
      then show ?thesis unfolding idx' by (rule is_index_of_int)
    next
      assume "binary64 (d / w) = PInf"
      then have "bin_index_fl binary64 st 40 (Fin w) s = Fin 39"
        by (simp only: idx d(1) q Math_floor.simps m1)
      then show ?thesis using i39 by simp
    qed
  next
    assume inf: "binary64 (v - lo) = PInf"
    have "fl_div binary64 PInf (Fin w) = PInf" using assms(4) by simp
    then have "bin_index_fl binary64 st 40 (Fin w) s = Fin 39"
      by (simp only: idx inf Math_floor.simps m1)
    then show ?thesis using i39 by simp
  qed
qed

lemma percent_fl_0:
  assumes "0 < n"
  shows "percent_fl 0 n = Fin 0"
  using assms by (simp add: percent_fl_def js_of_nat_def)

lemma percent_fl_bounds:
  assumes "0 < c" "c \<le> n" "n < 2 ^ 32"
  shows "\<exists>y. percent_fl c n = Fin y \<and> 0 < y \<and> y \<le> 100 \<and>
           \<bar>y - 100 * real c / real n\<bar> \<le> (100 * real c / real n) / 2 ^ 51"
proof -
  define x1 where "x1 = real c / real n"
  define r1 where "r1 = round64 x1"
  define x2 where "x2 = r1 * 100"
  define r2 where "r2 = round64 x2"
  have n: "0 < real n" "real n < 2 ^ 32" using assms by simp_all
  have c: "1 \<le> real c" "real c \<le> real n" using assms by simp_all
  have x1_hi: "x1 \<le> 1" unfolding x1_def using c n by simp
  have "1 / real n \<le> x1" unfolding x1_def using c n by (simp add: divide_right_mono)
  moreover have "1 / 2 ^ 32 < 1 / real n" using n by (simp add: field_simps)
  ultimately have x1_lo: "1 / 2 ^ 32 < x1" by linarith
  then have x1_pos: "0 < x1" by (smt (verit) zero_less_divide_1_iff zero_less_power)
  have "2 powr (- 1022) \<le> (1 :: real) / 2 ^ 32" by (rule normal_bound) simp
  then have "2 powr (- 1022) \<le> \<bar>x1\<bar>" using x1_lo by linarith
  from round64_rel_error [OF this] have e1: "\<bar>r1 - x1\<bar> \<le> x1 / 2 ^ 53"
    using x1_pos by (simp add: r1_def)
  have b1: "binary64 x1 = Fin r1" "r1 \<le> 1"
    using binary64_bounded [of x1 1] x1_pos x1_hi by (simp_all add: r1_def)
  have "x1 / 2 ^ 53 \<le> x1 / 2" using x1_pos by simp
  then have r1_lo: "x1 / 2 \<le> r1" and r1_hi: "r1 \<le> 2 * x1" using e1 x1_pos by linarith+
  have x2_hi: "x2 \<le> 100" and x2_pos: "0 < x2" using b1(2) r1_lo x1_pos by (simp_all add: x2_def)
  have "1 / 2 ^ 33 \<le> x2" using r1_lo x1_lo by (simp add: x2_def)
  moreover have "2 powr (- 1022) \<le> (1 :: real) / 2 ^ 33" by (rule normal_bound) simp
  ultimately have "2 powr (- 1022) \<le> \<bar>x2\<bar>" by linarith
  from round64_rel_error [OF this] have e2: "\<bar>r2 - x2\<bar> \<le> x2 / 2 ^ 53"
    using x2_pos by (simp add: r2_def)
  have b2: "binary64 x2 = Fin r2" "r2 \<le> 100"
    using binary64_bounded [of x2 100] x2_pos x2_hi by (simp_all add: r2_def)
  have "x2 / 2 ^ 53 \<le> x2 / 2" using x2_pos by simp
  then have r2_pos: "0 < r2" using e2 x2_pos by linarith
  have "r2 - 100 * x1 = (r2 - x2) + 100 * (r1 - x1)" by (simp add: x2_def)
  then have "\<bar>r2 - 100 * x1\<bar> \<le> \<bar>r2 - x2\<bar> + \<bar>100 * (r1 - x1)\<bar>"
    by (simp only: abs_triangle_ineq)
  also have "\<bar>100 * (r1 - x1)\<bar> = 100 * \<bar>r1 - x1\<bar>" by (simp only: abs_mult abs_numeral)
  finally have "\<bar>r2 - 100 * x1\<bar> \<le> \<bar>r2 - x2\<bar> + 100 * \<bar>r1 - x1\<bar>" .
  also have "\<bar>r2 - x2\<bar> + 100 * \<bar>r1 - x1\<bar> \<le> x2 / 2 ^ 53 + 100 * (x1 / 2 ^ 53)"
    by (intro add_mono mult_left_mono e1 e2) simp
  also have "\<dots> \<le> 100 * x1 / 2 ^ 51" using r1_hi x1_pos by (simp add: x2_def)
  finally have err: "\<bar>r2 - 100 * x1\<bar> \<le> 100 * x1 / 2 ^ 51" .
  have "percent_fl c n = Fin r2"
    using n(1) b1(1) b2(1) by (simp add: percent_fl_def js_of_nat_def x1_def [symmetric] x2_def [symmetric])
  then show ?thesis using r2_pos b2(2) err by (simp add: x1_def)
qed

lemma percent_fl_positive:
  assumes "c \<le> n" "0 < n" "n < 2 ^ 32"
  shows "num_gt (percent_fl c n) (Fin 0) \<longleftrightarrow> 0 < c"
proof (cases "c = 0")
  case True
  then show ?thesis using percent_fl_0 [OF assms(2)] by (simp add: num_gt_def)
next
  case False
  then have "0 < c" by simp
  from percent_fl_bounds [OF this assms(1,3)] show ?thesis
    using False by (auto simp: num_gt_def)
qed

lemma percent_fl_error:
  assumes "c \<le> n" "0 < n" "n < 2 ^ 32"
  shows "\<bar>the_fin (percent_fl c n) - real c * (100 / real n)\<bar> \<le> real c * (100 / real n / 2 ^ 51)"
proof (cases "c = 0")
  case True
  then show ?thesis using percent_fl_0 [OF assms(2)] by simp
next
  case False
  then have "0 < c" by simp
  from percent_fl_bounds [OF this assms(1,3)] obtain y where y: "percent_fl c n = Fin y"
    and e: "\<bar>y - 100 * real c / real n\<bar> \<le> (100 * real c / real n) / 2 ^ 51" by blast
  have "100 * real c / real n = real c * (100 / real n)" by simp
  then show ?thesis using e by (simp only: y jsnum.sel times_divide_eq_right)
qed

lemma distribution_fl_repr:
  assumes "sims \<noteq> []" "length sims < 2 ^ 32"
  shows "distribution_fl binary64 sims st =
     Inr (map (\<lambda>i. mk_bin_fl st (length sims) (bin_counts_fl sims st ! i) i)
            (filter (\<lambda>i. 0 < bin_counts_fl sims st ! i) [0..<40]))"
proof -
  let ?cs = "bin_counts_fl sims st"
  let ?n = "length sims"
  have n: "0 < ?n" using assms(1) by simp
  have z: "zip ?cs [0..<40] = map (\<lambda>i. (?cs ! i, i)) [0..<40]"
    by (rule zip_upt_nth) simp
  have "filter (\<lambda>i. num_gt (bin_y (mk_bin_fl st ?n (?cs ! i) i)) (Fin 0)) [0..<40] =
        filter (\<lambda>i. 0 < ?cs ! i) [0..<40]"
  proof (rule filter_cong [OF refl])
    fix i assume "i \<in> set [0..<40]"
    then have "i < 40" by simp
    from percent_fl_positive [OF bin_counts_fl_le [OF this] n assms(2)]
    show "num_gt (bin_y (mk_bin_fl st ?n (?cs ! i) i)) (Fin 0) \<longleftrightarrow> 0 < ?cs ! i"
      by (simp add: mk_bin_fl_def)
  qed
  then show ?thesis
    by (simp add: distribution_fl_counts z filter_map comp_def)
qed

lemma sum_list_abs_diff:
  fixes f g e :: "'a \<Rightarrow> real"
  assumes "\<forall>x \<in> set xs. \<bar>f x - g x\<bar> \<le> e x"
  shows "\<bar>(\<Sum>x\<leftarrow>xs. f x) - (\<Sum>x\<leftarrow>xs. g x)\<bar> \<le> (\<Sum>x\<leftarrow>xs. e x)"
  using assms
proof (induction xs)
  case Nil
  then show ?case by simp
next
  case (Cons x xs)
  then have "\<bar>f x - g x\<bar> \<le> e x" "\<bar>(\<Sum>x\<leftarrow>xs. f x) - (\<Sum>x\<leftarrow>xs. g x)\<bar> \<le> (\<Sum>x\<leftarrow>xs. e x)"
    by simp_all
  then show ?case by simp
qed

lemma distribution_fl_mass:
  fixes h :: store
  assumes "a < length h" and "stats_fl binary64 a h = (Inr st, h')"
    and "length (h ! a) < 2 ^ 32"
    and "fl_div binary64 (fl_sub binary64 (max_v st) (min_v st)) (js_of_nat 40) = Fin w"
    and "0 < w"
  shows "\<exists>cs bins.
           length cs = 40 \<and> sum_list cs = length (h ! a) \<and>
           (\<forall>i<40. cs ! i =
              length (filter (\<lambda>s. bin_index_fl binary64 st 40 (Fin w) s = js_of_nat i) (h ! a))) \<and>
           distribution_fl binary64 (h' ! a) st = Inr bins \<and>
           bins = map (\<lambda>i. mk_bin_fl st (length (h ! a)) (cs ! i) i) (filter (\<lambda>i. 0 < cs ! i) [0..<40]) \<and>
           \<bar>(\<Sum>d\<leftarrow>bins. the_fin (bin_y d)) - 100\<bar> \<le> 100 / 2 ^ 51 \<and>
           \<bar>(\<Sum>d\<leftarrow>bins. the_fin (bin_y d)) - 100\<bar> \<le> 1 / 10 ^ 6 \<and>
           (\<forall>d \<in> set bins. is_Fin (bin_y d) \<and> 0 < the_fin (bin_y d) \<and> the_fin (bin_y d) \<le> 100) \<and>
           finite_values (h ! a) \<and> num_gt (max_v st) (min_v st)"
proof -
  let ?sims = "h ! a"
  let ?n = "length ?sims"
  let ?cs = "bin_counts_fl ?sims st"
  let ?sel = "filter (\<lambda>i. 0 < ?cs ! i) [0..<40]"
  let ?bins = "map (\<lambda>i. mk_bin_fl st ?n (?cs ! i) i) ?sel"
  let ?y = "\<lambda>i. the_fin (percent_fl (?cs ! i) ?n)"
  note st = stats_fl_Inr [OF assms(1,2)]
  obtain lo hi where lo: "min_v st = Fin lo" and hi: "max_v st = Fin hi" and lh: "lo < hi"
    using width_positive [OF assms(4,5)] by blast
  have rng: "\<forall>s \<in> set ?sims. \<exists>v. npv s = Fin v \<and> lo \<le> v \<and> v \<le> hi"
    by (rule stats_fl_bounds [OF assms(1,2) lo hi])
  have n: "0 < ?n" using st(2) by simp
  have rn: "0 < real ?n" using n by simp
  have idx: "is_index (bin_index_fl binary64 st 40 (Fin w) s) 40" if "s \<in> set ?sims" for s
    using rng that bin_index_fl_valid [OF lo _ _ assms(5)] by blast
  have total: "sum_list ?cs = ?n"
    using idx by (simp add: sum_list_bin_counts_fl assms(4))
  have le: "?cs ! i \<le> ?n" if "i < 40" for i
    by (rule bin_counts_fl_le [OF that])
  have zero: "?y i = 0" if "i < 40" "\<not> 0 < ?cs ! i" for i
    using that percent_fl_0 [OF n] by simp
  have "(\<Sum>d\<leftarrow>?bins. the_fin (bin_y d)) = (\<Sum>i\<leftarrow>?sel. ?y i)"
    by (simp add: comp_def mk_bin_fl_def)
  also have "\<dots> = (\<Sum>i\<leftarrow>[0..<40]. ?y i)"
    by (rule sum_list_map_filter) (use zero in simp)
  finally have s1: "(\<Sum>d\<leftarrow>?bins. the_fin (bin_y d)) = (\<Sum>i\<leftarrow>[0..<40]. ?y i)" .
  have "\<bar>(\<Sum>i\<leftarrow>[0..<40]. ?y i) - (\<Sum>i\<leftarrow>[0..<40]. real (?cs ! i) * (100 / real ?n))\<bar>
          \<le> (\<Sum>i\<leftarrow>[0..<40]. real (?cs ! i) * (100 / real ?n / 2 ^ 51))"
  proof (rule sum_list_abs_diff, rule ballI)
    fix i assume "i \<in> set [0..<40]"
    then have "i < 40" by simp
    from percent_fl_error [OF le [OF this] n assms(3)]
    show "\<bar>?y i - real (?cs ! i) * (100 / real ?n)\<bar> \<le> real (?cs ! i) * (100 / real ?n / 2 ^ 51)" .
  qed
  moreover have "(\<Sum>i\<leftarrow>[0..<40]. real (?cs ! i) * (100 / real ?n)) = 100"
    using sum_list_scaled_counts [of ?cs "100 / real ?n"] rn by (simp add: total)
  moreover have "(\<Sum>i\<leftarrow>[0..<40]. real (?cs ! i) * (100 / real ?n / 2 ^ 51)) = 100 / 2 ^ 51"
    using sum_list_scaled_counts [of ?cs "100 / real ?n / 2 ^ 51"] rn by (simp add: total)
  ultimately have "\<bar>(\<Sum>i\<leftarrow>[0..<40]. ?y i) - 100\<bar> \<le> 100 / 2 ^ 51" by simp
  then have sharp: "\<bar>(\<Sum>d\<leftarrow>?bins. the_fin (bin_y d)) - 100\<bar> \<le> 100 / 2 ^ 51"
    by (simp only: s1)
  moreover have "(100 :: real) / 2 ^ 51 \<le> 1 / 10 ^ 6" by simp
  ultimately have mass: "\<bar>(\<Sum>d\<leftarrow>?bins. the_fin (bin_y d)) - 100\<bar> \<le> 1 / 10 ^ 6"
    by (rule order_trans)
  have each: "is_Fin (bin_y d) \<and> 0 < the_fin (bin_y d) \<and> the_fin (bin_y d) \<le> 100"
    if "d \<in> set ?bins" for d
  proof -
    from that obtain i where i: "i < 40" "0 < ?cs ! i" and d: "d = mk_bin_fl st ?n (?cs ! i) i"
      by auto
    from percent_fl_bounds [OF i(2) le [OF i(1)] assms(3)] show ?thesis
      by (auto simp: d mk_bin_fl_def)
  qed
  have fin: "finite_values ?sims"
    using rng by (auto simp: finite_values_def list_all_iff)
  have gt: "num_gt (max_v st) (min_v st)"
    using lh by (simp add: lo hi num_gt_def)
  have "distribution_fl binary64 (h' ! a) st = Inr ?bins"
    using distribution_fl_repr [OF st(2) assms(3), of st] by (simp add: st(1))
  moreover have "\<forall>i<40. ?cs ! i =
      length (filter (\<lambda>s. bin_index_fl binary64 st 40 (Fin w) s = js_of_nat i) ?sims)"
    by (simp add: bin_counts_fl_nth assms(4))
  ultimately show ?thesis
    using total sharp mass each fin gt by (intro exI [of _ ?cs] exI [of _ ?bins]) simp
qed

lemma stats_fl_attained:
  fixes h :: store
  assumes "a < length h" and "stats_fl rnd a h = (Inr st, h')"
    and "num_gt (max_v st) (min_v st)"
  shows "\<exists>s \<in> set (h ! a). npv s = min_v st" and "\<exists>s \<in> set (h ! a). npv s = max_v st"
proof -
  let ?vals = "map npv (js_sort (\<lambda>x y. fl_sub rnd (npv x) (npv y)) (h ! a))"
  note st = stats_fl_Inr [OF assms(1,2)]
  have lt: "num_lt (min_v st) (max_v st)" using assms(3) by (simp add: num_gt_def)
  then have nn: "min_v st \<noteq> NaN" "max_v st \<noteq> NaN" "min_v st \<noteq> PInf" "max_v st \<noteq> NInf"
    by (cases "min_v st"; cases "max_v st"; simp)+
  have "min_v st \<in> insert NaN (insert PInf (set ?vals))"
    unfolding st(3) Math_min_spread_def by (rule foldl_Math_min_member)
  then have "min_v st \<in> set ?vals" using nn by simp
  then show "\<exists>s \<in> set (h ! a). npv s = min_v st" by auto
  have "max_v st \<in> insert NaN (insert NInf (set ?vals))"
    unfolding st(4) Math_max_spread_def by (rule foldl_Math_max_member)
  then have "max_v st \<in> set ?vals" using nn by simp
  then show "\<exists>s \<in> set (h ! a). npv s = max_v st" by auto
qed

lemma bin_width_cases:
  assumes "num_gt hi_v lo_v"
  shows "(\<exists>w. fl_div binary64 (fl_sub binary64 hi_v lo_v) (js_of_nat 40) = Fin w \<and> 0 < w) \<or>
         (fl_div binary64 (fl_sub binary64 hi_v lo_v) (js_of_nat 40) = Fin 0 \<and> is_Fin lo_v) \<or>
         (fl_sub binary64 hi_v lo_v = PInf \<and>
          fl_div binary64 (fl_sub binary64 hi_v lo_v) (js_of_nat 40) = PInf)"
proof -
  have lt: "num_lt lo_v hi_v" using assms by (simp add: num_gt_def)
  show ?thesis
  proof (cases "is_Fin lo_v \<and> is_Fin hi_v")
    case True
    then obtain lo hi where v: "lo_v = Fin lo" "hi_v = Fin hi"
      by (cases lo_v; cases hi_v) simp_all
    have "0 \<le> hi - lo" using lt v by simp
    from binary64_nonneg [OF this] show ?thesis
    proof
      assume "\<exists>d. binary64 (hi - lo) = Fin d \<and> 0 \<le> d"
      then obtain d where d: "binary64 (hi - lo) = Fin d" "0 \<le> d" by blast
      from quotient_finite [OF d] obtain w where w: "binary64 (d / 40) = Fin w" "0 \<le> w"
        by blast
      have "fl_div binary64 (fl_sub binary64 hi_v lo_v) (js_of_nat 40) = Fin w"
        by (simp add: v fl_sub_def d(1) js_of_nat_def w(1))
      then show ?thesis using w(2) v(1) by (cases "w = 0") auto
    next
      assume "binary64 (hi - lo) = PInf"
      then show ?thesis by (simp add: v fl_sub_def js_of_nat_def)
    qed
  next
    case False
    then have "fl_sub binary64 hi_v lo_v = PInf"
      using lt by (cases lo_v; cases hi_v) (simp_all add: fl_sub_def)
    then show ?thesis by (simp add: js_of_nat_def)
  qed
qed

lemma bin_width_needed:
  fixes h :: store
  assumes "a < length h" and "stats_fl binary64 a h = (Inr st, h')"
    and "num_gt (max_v st) (min_v st)"
    and "sum_list (bin_counts_fl (h ! a) st) = length (h ! a)"
  shows "\<exists>w. fl_div binary64 (fl_sub binary64 (max_v st) (min_v st)) (js_of_nat 40) = Fin w \<and> 0 < w"
proof (rule ccontr)
  assume no: "\<not> ?thesis"
  let ?W = "fl_div binary64 (fl_sub binary64 (max_v st) (min_v st)) (js_of_nat 40)"
  have all: "is_index (bin_index_fl binary64 st 40 ?W s) 40" if "s \<in> set (h ! a)" for s
  proof (rule ccontr)
    assume "\<not> ?thesis"
    from length_filter_less [OF that, of "\<lambda>s. is_index (bin_index_fl binary64 st 40 ?W s) 40"] this
    show False using assms(4) by (simp add: sum_list_bin_counts_fl)
  qed
  obtain s_lo s_hi where lo: "s_lo \<in> set (h ! a)" "npv s_lo = min_v st"
    and hi: "s_hi \<in> set (h ! a)" "npv s_hi = max_v st"
    using stats_fl_attained [OF assms(1-3)] by blast
  from bin_width_cases [OF assms(3)] no
  consider "?W = Fin 0" "is_Fin (min_v st)"
    | "fl_sub binary64 (max_v st) (min_v st) = PInf" "?W = PInf"
    by blast
  then show False
  proof cases
    case 1
    then obtain l where l: "min_v st = Fin l" by (cases "min_v st") simp_all
    have sub: "fl_sub binary64 (npv s_lo) (min_v st) = Fin 0"
      by (simp add: lo(2) l fl_sub_def)
    have "bin_index_fl binary64 st 40 ?W s_lo =
        Math_min (fl_sub binary64 (js_of_nat 40) (Fin 1)) (Math_floor (fl_div binary64 (Fin 0) (Fin 0)))"
      by (simp only: bin_index_fl_def sub 1(1))
    then have "bin_index_fl binary64 st 40 ?W s_lo = NaN"
      by (simp add: Math_min_def)
    then show False using all [OF lo(1)] by (simp add: is_index_def)
  next
    case 2
    have "bin_index_fl binary64 st 40 ?W s_hi =
        Math_min (fl_sub binary64 (js_of_nat 40) (Fin 1)) (Math_floor (fl_div binary64 PInf PInf))"
      using 2 by (simp only: bin_index_fl_def hi(2))
    then have "bin_index_fl binary64 st 40 ?W s_hi = NaN"
      by (simp add: Math_min_def)
    then show False using all [OF hi(1)] by (simp add: is_index_def)
  qed
qed

lemma clamped_bin_width:
  fixes h :: store
  assumes "a < length h" and "stats_fl binary64 a h = (Inr st, h')"
    and "clamped_values (h ! a)" and "num_gt (max_v st) (min_v st)"
  shows "\<exists>w. fl_div binary64 (fl_sub binary64 (max_v st) (min_v st)) (js_of_nat 40) = Fin w \<and> 0 < w"
proof -
  obtain s_lo s_hi where "s_lo \<in> set (h ! a)" "npv s_lo = min_v st"
    and "s_hi \<in> set (h ! a)" "npv s_hi = max_v st"
    using stats_fl_attained [OF assms(1,2,4)] by blast
  then have "is_Fin (min_v st) \<and> is_binary64 (min_v st) \<and> num_ge (min_v st) (Fin 50)"
    "is_Fin (max_v st) \<and> is_binary64 (max_v st)"
    using assms(3) by (auto simp: clamped_values_def list_all_iff)
  then obtain lo hi where lo: "min_v st = Fin lo" "binary64 lo = Fin lo" "50 \<le> lo"
    and hi: "max_v st = Fin hi" "binary64 hi = Fin hi"
    by (cases "min_v st"; cases "max_v st") (auto simp: is_binary64_def num_ge_def num_le_def)
  have lh: "lo < hi" using assms(4) by (simp add: lo hi num_gt_def)
  have gap: "1 / 2 ^ 47 \<le> hi - lo"
    by (rule grid_gap_32 [OF lo(2) hi(2) _ lh]) (use lo(3) in simp)
  have rhi: "round64 hi = hi" "hi < overflow64"
    using hi(2) by (auto simp: binary64_def Let_def split: if_splits)
  define d where "d = round64 (hi - lo)"
  have "d \<le> hi"
    unfolding d_def by (rule round64_le_binary64 [OF _ _ rhi(1)]) (use lh lo(3) in simp_all)
  moreover have d0: "0 \<le> d" unfolding d_def using lh by (intro round64_nonneg) simp
  ultimately have "\<bar>round64 (hi - lo)\<bar> < overflow64" using rhi(2) by (simp add: d_def)
  then have bd: "binary64 (hi - lo) = Fin d" unfolding d_def by (rule binary64_Fin)
  have "(2 :: real) powr (- 1022) \<le> 1 / 2 ^ 47" by (rule normal_bound) simp
  then have "2 powr (- 1022) \<le> \<bar>hi - lo\<bar>" using gap by linarith
  from round64_rel_error [OF this] have "\<bar>d - (hi - lo)\<bar> \<le> (hi - lo) / 2 ^ 53"
    using lh by (simp add: d_def)
  moreover have "(hi - lo) / 2 ^ 53 \<le> (hi - lo) / 2" using lh by simp
  ultimately have "\<bar>d - (hi - lo)\<bar> \<le> (hi - lo) / 2" by (rule order_trans)
  then have "- (d - (hi - lo)) \<le> (hi - lo) / 2" by (rule abs_le_D2)
  then have "(hi - lo) / 2 \<le> d" by argo
  then have "1 / 2 ^ 48 \<le> d" using gap by simp
  then have "1 / 2 ^ 54 \<le> d / 40" by simp
  moreover have "(2 :: real) powr (- 1074) \<le> 2 powr (- 1022)" by (rule powr_mono) simp_all
  moreover have "(2 :: real) powr (- 1022) \<le> 1 / 2 ^ 54" by (rule normal_bound) simp
  ultimately have "2 powr (- 1074) \<le> d / 40" by linarith
  then have pos: "0 < round64 (d / 40)" by (rule round64_pos)
  obtain w where w: "binary64 (d / 40) = Fin w" using quotient_finite [OF bd d0] by blast
  then have "w = round64 (d / 40)" by (auto simp: binary64_def Let_def split: if_splits)
  then have "0 < w" using pos by simp
  moreover have "fl_div binary64 (fl_sub binary64 (max_v st) (min_v st)) (js_of_nat 40) = Fin w"
    by (simp add: lo(1) hi(1) fl_sub_def bd js_of_nat_def w)
  ultimately show ?thesis by blast
qed

lemma distribution_clamped:
  fixes h :: store
  assumes "a < length h" and "stats_fl binary64 a h = (Inr st, h')"
    and "length (h ! a) < 2 ^ 32"
    and "clamped_values (h ! a)" and "num_gt (max_v st) (min_v st)"
  shows "\<exists>bins. distribution_fl binary64 (h' ! a) st = Inr bins \<and>
           \<bar>(\<Sum>d\<leftarrow>bins. the_fin (bin_y d)) - 100\<bar> \<le> 1 / 10 ^ 6 \<and>
           (\<forall>d \<in> set bins. is_Fin (bin_y d) \<and> 0 < the_fin (bin_y d) \<and> the_fin (bin_y d) \<le> 100)"
proof -
  obtain w where w: "fl_div binary64 (fl_sub binary64 (max_v st) (min_v st)) (js_of_nat 40) = Fin w"
    "0 < w"
    using clamped_bin_width [OF assms(1,2,4,5)] by blast
  from distribution_fl_mass [OF assms(1-3) w] show ?thesis by blast
qed

text \<open>
  Claim C6, in the arithmetic of binary64, for populations whose bin width is a positive
  finite number. The population has fewer than \<open>2 ^ 32\<close> samples (the bound of an array)
  and the bin width \<^verbatim>\<open>(stats.max - stats.min) / bins\<close> that the distribution computes is
  finite and positive; then every value is finite and \<open>max > min\<close>. Every sample is
  counted in one of the 40 bins (\<open>cs\<close> are the counts, by bin index); the distribution
  returns, in ascending bin index, exactly the bins of positive count, each with the
  rounded \<open>y = count / N * 100\<close>; the \<open>y\<close> of the returned bins sum to 100 within
  \<open>100 / 2 ^ 51\<close>, so within the tolerance \<open>1e-6\<close> (the omitted bins have \<open>y = 0\<close>), and
  each lies in \<open>(0, 100]\<close>. The condition on the width is the one that is needed: when
  \<open>max > min\<close> and the width is not a positive finite number (a value is infinite,
  \<open>max - min\<close> overflows, or the quotient rounds to 0), some sample is counted in no bin
  (lemma \<open>bin_width_needed\<close>). It holds whenever \<open>max > min\<close> and the values are finite
  and at least 50, as the simulations clamp them (lemma \<open>clamped_bin_width\<close>).
\<close>

theorem distribution_mass_binary64:
  fixes h :: store
  assumes "a < length h" and "stats_fl binary64 a h = (Inr st, h')"
    and "length (h ! a) < 2 ^ 32"
    and "fl_div binary64 (fl_sub binary64 (max_v st) (min_v st)) (js_of_nat 40) = Fin w"
    and "0 < w"
  shows "\<exists>cs bins.
           length cs = 40 \<and> sum_list cs = length (h ! a) \<and>
           (\<forall>i<40. cs ! i =
              length (filter (\<lambda>s. bin_index_fl binary64 st 40 (Fin w) s = js_of_nat i) (h ! a))) \<and>
           distribution_fl binary64 (h' ! a) st = Inr bins \<and>
           bins = map (\<lambda>i. mk_bin_fl st (length (h ! a)) (cs ! i) i) (filter (\<lambda>i. 0 < cs ! i) [0..<40]) \<and>
           \<bar>(\<Sum>d\<leftarrow>bins. the_fin (bin_y d)) - 100\<bar> \<le> 100 / 2 ^ 51 \<and>
           \<bar>(\<Sum>d\<leftarrow>bins. the_fin (bin_y d)) - 100\<bar> \<le> 1 / 10 ^ 6 \<and>
           (\<forall>d \<in> set bins. is_Fin (bin_y d) \<and> 0 < the_fin (bin_y d) \<and> the_fin (bin_y d) \<le> 100) \<and>
           finite_values (h ! a) \<and> num_gt (max_v st) (min_v st)"
  by (rule distribution_fl_mass [OF assms])

theorem distribution_mass_binary64_witness:
  "(0 :: nat) < length [[sample_above, sample_half]] \<and>
   stats_fl binary64 0 [[sample_above, sample_half]] =
     (Inr (stats_of_fl [sample_above, sample_half]),
      [[sample_above, sample_half], [sample_half, sample_above]]) \<and>
   length ([[sample_above, sample_half]] ! 0) < 2 ^ 32 \<and>
   fl_div binary64 (fl_sub binary64 (max_v (stats_of_fl [sample_above, sample_half]))
                      (min_v (stats_of_fl [sample_above, sample_half]))) (js_of_nat 40) = Fin (1 / 4) \<and>
   (0 :: real) < 1 / 4 \<and>
   (\<exists>bins. distribution_fl binary64 ([[sample_above, sample_half], [sample_half, sample_above]] ! 0)
              (stats_of_fl [sample_above, sample_half]) = Inr bins \<and>
      \<bar>(\<Sum>d\<leftarrow>bins. the_fin (bin_y d)) - 100\<bar> \<le> 1 / 10 ^ 6)"
proof -
  let ?sims = "[sample_above, sample_half]"
  let ?st = "stats_of_fl ?sims"
  have ne: "?sims \<noteq> []" by simp
  have srt: "js_sort (\<lambda>x y. fl_sub binary64 (npv x) (npv y)) ?sims = [sample_half, sample_above]"
    by (simp add: js_sort_def sample_values fl_sub_def)
  note st = stats_of_fl_nonempty [OF ne]
  have lo: "min_v ?st = Fin 60" and hi: "max_v ?st = Fin 70"
    unfolding st(3,4) srt
    by (simp_all add: sample_values Math_min_spread_def Math_max_spread_def Math_min_def Math_max_def)
  have q: "binary64 (1 / 4) = Fin (1 / 4)"
    using binary64_near [of "1 / 4" 54 "2 ^ 52"] by simp
  have h1: "(0 :: nat) < length [?sims]" by simp
  have h2: "stats_fl binary64 0 [?sims] = (Inr ?st, [?sims, [sample_half, sample_above]])"
    using st(1) by (simp only: srt)
  have h3: "length ([?sims] ! 0) < 2 ^ 32" by simp
  have h4: "fl_div binary64 (fl_sub binary64 (max_v ?st) (min_v ?st)) (js_of_nat 40) = Fin (1 / 4)"
    using q by (simp add: lo hi fl_sub_def js_of_nat_def)
  have h5: "(0 :: real) < 1 / 4" by simp
  from distribution_mass_binary64 [OF h1 h2 h3 h4 h5] h1 h2 h3 h4 h5 show ?thesis by blast
qed

text \<open>
  The claim as stated (every population with \<open>max > min\<close>; a sum of at most 100) fails in
  two ways. On a population with an infinite value, which the simulations produce at a
  draw \<open>u1 = 0\<close>: for the samples \<open>(60, 0.6)\<close> and \<open>(Infinity, 0.95)\<close> the bin width is
  \<open>Infinity\<close>, the index of the infinite sample is NaN (\<open>Infinity / Infinity\<close>), and the
  only bin has \<open>y = 50\<close>: the bins sum to 50, the omitted ones included. And on finite
  values the sum may exceed 100: for one sample of value 60 and five of value 70 the two
  bins have \<open>y = 16.666666666666664\<close> and \<open>y = 83.33333333333334\<close>, whose sum is
  \<open>100 + 2 ^ -47\<close>.
\<close>

theorem distribution_mass_binary64_counterexample:
  "fst (stats_fl binary64 0 [[sample_lo, sample_top]]) = Inr (stats_of_fl [sample_lo, sample_top]) \<and>
   min_v (stats_of_fl [sample_lo, sample_top]) = Fin 60 \<and>
   max_v (stats_of_fl [sample_lo, sample_top]) = PInf \<and>
   distribution_fl binary64 [sample_lo, sample_top] (stats_of_fl [sample_lo, sample_top]) =
     Inr [\<lparr>bin_x = PInf, bin_y = Fin 50\<rparr>] \<and>
   fst (stats_fl binary64 0 [[sample_half, sample_above, sample_above, sample_above, sample_above, sample_above]]) =
     Inr (stats_of_fl [sample_half, sample_above, sample_above, sample_above, sample_above, sample_above]) \<and>
   min_v (stats_of_fl [sample_half, sample_above, sample_above, sample_above, sample_above, sample_above]) = Fin 60 \<and>
   max_v (stats_of_fl [sample_half, sample_above, sample_above, sample_above, sample_above, sample_above]) = Fin 70 \<and>
   distribution_fl binary64 [sample_half, sample_above, sample_above, sample_above, sample_above, sample_above]
       (stats_of_fl [sample_half, sample_above, sample_above, sample_above, sample_above, sample_above]) =
     Inr [\<lparr>bin_x = Fin (481 / 8), bin_y = Fin (4691249611844266 / 2 ^ 48)\<rparr>,
          \<lparr>bin_x = Fin (559 / 8), bin_y = Fin (5864062014805334 / 2 ^ 46)\<rparr>] \<and>
   (100 :: real) < 4691249611844266 / 2 ^ 48 + 5864062014805334 / 2 ^ 46"
proof -
  let ?cmp = "\<lambda>x y. fl_sub binary64 (npv x) (npv y)"
  let ?p = "[sample_lo, sample_top]"
  let ?sp = "stats_of_fl ?p"
  let ?q = "[sample_half, sample_above, sample_above, sample_above, sample_above, sample_above]"
  let ?sq = "stats_of_fl ?q"
  have p: "?p \<noteq> []" by simp
  have srt_p: "map npv (js_sort ?cmp ?p) = [Fin 60, PInf]"
    by (simp add: js_sort_def sample_fields fl_sub_def)
  note stp = stats_of_fl_nonempty [OF p]
  have lo_p: "min_v ?sp = Fin 60" and hi_p: "max_v ?sp = PInf"
    unfolding stp(3,4) srt_p
    by (simp_all add: Math_min_spread_def Math_max_spread_def Math_min_def Math_max_def)
  have w_p: "fl_div binary64 (fl_sub binary64 (max_v ?sp) (min_v ?sp)) (js_of_nat 40) = PInf"
    by (simp add: lo_p hi_p fl_sub_def js_of_nat_def)
  have i_lo: "bin_index_fl binary64 ?sp 40 PInf sample_lo = Fin 0"
    by (simp add: bin_index_fl_def lo_p sample_fields fl_sub_def js_of_nat_def Math_min_def)
  have i_top: "bin_index_fl binary64 ?sp 40 PInf sample_top = NaN"
    by (simp add: bin_index_fl_def lo_p sample_fields fl_sub_def js_of_nat_def)
  have cs_p: "bin_counts_fl ?p ?sp ! i = (if i = 0 then 1 else 0)" if "i < 40" for i
  proof -
    have "bin_counts_fl ?p ?sp ! i =
        length (filter (\<lambda>s. bin_index_fl binary64 ?sp 40 PInf s = js_of_nat i) ?p)"
      using bin_counts_fl_nth [OF that, of ?p ?sp] by (simp only: w_p)
    also have "\<dots> = (if Fin 0 = js_of_nat i then 1 else 0)"
      by (simp only: filter.simps i_lo i_top) (simp add: js_of_nat_def)
    finally show ?thesis by (simp add: js_of_nat_def)
  qed
  have sel_p: "filter (\<lambda>i. 0 < bin_counts_fl ?p ?sp ! i) [0..<40] = [0]"
    by (rule filter_upt_only_0) (simp_all add: cs_p)
  have len_p: "length ?p = 2" by simp
  have "distribution_fl binary64 ?p ?sp =
      Inr (map (\<lambda>i. mk_bin_fl ?sp (length ?p) (bin_counts_fl ?p ?sp ! i) i)
             (filter (\<lambda>i. 0 < bin_counts_fl ?p ?sp ! i) [0..<40]))"
    by (rule distribution_fl_repr) simp_all
  then have "distribution_fl binary64 ?p ?sp = Inr [mk_bin_fl ?sp 2 (bin_counts_fl ?p ?sp ! 0) 0]"
    by (simp only: sel_p len_p list.map)
  also have "mk_bin_fl ?sp 2 (bin_counts_fl ?p ?sp ! 0) 0 = \<lparr>bin_x = PInf, bin_y = Fin 50\<rparr>"
  proof -
    have c: "bin_counts_fl ?p ?sp ! 0 = 1" using cs_p [of 0] by simp
    have x: "fl_add binary64 (min_v ?sp)
        (fl_mul binary64 (fl_add binary64 (js_of_nat 0) (binary64 0.5)) PInf) = PInf"
      using half_sums(1) by (simp add: lo_p js_of_nat_def)
    show ?thesis by (simp only: mk_bin_fl_def w_p c x percent_fl_values(1))
  qed
  finally have dist_p: "distribution_fl binary64 ?p ?sp = Inr [\<lparr>bin_x = PInf, bin_y = Fin 50\<rparr>]" .
  have q: "?q \<noteq> []" by simp
  have srt_q: "map npv (js_sort ?cmp ?q) = [Fin 60, Fin 70, Fin 70, Fin 70, Fin 70, Fin 70]"
    by (simp add: js_sort_def sample_values fl_sub_def)
  note stq = stats_of_fl_nonempty [OF q]
  have lo_q: "min_v ?sq = Fin 60" and hi_q: "max_v ?sq = Fin 70"
    unfolding stq(3,4) srt_q
    by (simp_all add: Math_min_spread_def Math_max_spread_def Math_min_def Math_max_def)
  have w_q: "fl_div binary64 (fl_sub binary64 (max_v ?sq) (min_v ?sq)) (js_of_nat 40) = Fin (1 / 4)"
    using sixths(5) by (simp add: lo_q hi_q fl_sub_def js_of_nat_def)
  have i_floor: "bin_index_fl binary64 ?sq 40 (Fin (1 / 4)) sample_half = Fin 0"
    by (simp add: bin_index_fl_def lo_q sample_values fl_sub_def js_of_nat_def Math_min_def)
  have i_hi: "bin_index_fl binary64 ?sq 40 (Fin (1 / 4)) sample_above = Fin 39"
    by (simp add: bin_index_fl_def lo_q sample_values fl_sub_def js_of_nat_def Math_min_def)
  have cs_q: "bin_counts_fl ?q ?sq ! i = (if i = 0 then 1 else if i = 39 then 5 else 0)" if "i < 40" for i
  proof -
    have "bin_counts_fl ?q ?sq ! i =
        length (filter (\<lambda>s. bin_index_fl binary64 ?sq 40 (Fin (1 / 4)) s = js_of_nat i) ?q)"
      using bin_counts_fl_nth [OF that, of ?q ?sq] by (simp only: w_q)
    also have "\<dots> = (if Fin 0 = js_of_nat i then 1 else 0) + (if Fin 39 = js_of_nat i then 5 else 0)"
      by (simp only: filter.simps i_floor i_hi) simp
    finally show ?thesis by (auto simp: js_of_nat_def)
  qed
  have sel_q: "filter (\<lambda>i. 0 < bin_counts_fl ?q ?sq ! i) [0..<40] = [0, 39]"
    by (rule filter_upt_two) (auto simp: cs_q)
  have len_q: "length ?q = 6" by simp
  have "distribution_fl binary64 ?q ?sq =
      Inr (map (\<lambda>i. mk_bin_fl ?sq (length ?q) (bin_counts_fl ?q ?sq ! i) i)
             (filter (\<lambda>i. 0 < bin_counts_fl ?q ?sq ! i) [0..<40]))"
    by (rule distribution_fl_repr) simp_all
  then have "distribution_fl binary64 ?q ?sq =
      Inr [mk_bin_fl ?sq 6 (bin_counts_fl ?q ?sq ! 0) 0, mk_bin_fl ?sq 6 (bin_counts_fl ?q ?sq ! 39) 39]"
    by (simp only: sel_q len_q list.map)
  also have "mk_bin_fl ?sq 6 (bin_counts_fl ?q ?sq ! 0) 0 =
      \<lparr>bin_x = Fin (481 / 8), bin_y = Fin (4691249611844266 / 2 ^ 48)\<rparr>"
  proof -
    have c: "bin_counts_fl ?q ?sq ! 0 = 1" using cs_q [of 0] by simp
    have x: "fl_add binary64 (min_v ?sq)
        (fl_mul binary64 (fl_add binary64 (js_of_nat 0) (binary64 0.5)) (Fin (1 / 4))) = Fin (481 / 8)"
      using half_sums(1) sixths(6,7) by (simp add: lo_q js_of_nat_def)
    show ?thesis by (simp only: mk_bin_fl_def w_q c x percent_fl_values(2))
  qed
  also have "mk_bin_fl ?sq 6 (bin_counts_fl ?q ?sq ! 39) 39 =
      \<lparr>bin_x = Fin (559 / 8), bin_y = Fin (5864062014805334 / 2 ^ 46)\<rparr>"
  proof -
    have c: "bin_counts_fl ?q ?sq ! 39 = 5" using cs_q [of 39] by simp
    have x: "fl_add binary64 (min_v ?sq)
        (fl_mul binary64 (fl_add binary64 (js_of_nat 39) (binary64 0.5)) (Fin (1 / 4))) = Fin (559 / 8)"
      using half_sums(1) sixths(8,9,10) by (simp add: lo_q js_of_nat_def)
    show ?thesis by (simp only: mk_bin_fl_def w_q c x percent_fl_values(3))
  qed
  finally have dist_q: "distribution_fl binary64 ?q ?sq =
      Inr [\<lparr>bin_x = Fin (481 / 8), bin_y = Fin (4691249611844266 / 2 ^ 48)\<rparr>,
           \<lparr>bin_x = Fin (559 / 8), bin_y = Fin (5864062014805334 / 2 ^ 46)\<rparr>]" .
  have over: "(100 :: real) < 4691249611844266 / 2 ^ 48 + 5864062014805334 / 2 ^ 46" by simp
  have f_p: "fst (stats_fl binary64 0 [?p]) = Inr ?sp" by (simp only: stp(1) fst_conv)
  have f_q: "fst (stats_fl binary64 0 [?q]) = Inr ?sq" by (simp only: stq(1) fst_conv)
  from f_p lo_p hi_p dist_p f_q lo_q hi_q dist_q over show ?thesis
    by (intro conjI)
qed

section \<open>Reads and writes stay inside the arrays\<close>

text \<open>
  The counter index of the distribution is never 40 or more, so the array of counters is
  never extended; and on a population that is not empty the three percentile reads of the
  statistics are inside \<^verbatim>\<open>vals\<close>, so none of them is \<^verbatim>\<open>undefined\<close>.
\<close>

lemma bin_index_at_most_39:
  assumes "bin_index st 40 bs s = Fin r"
  shows "r \<le> 39"
  using assms
  by (cases "Math_floor ((npv s - min_v st) / bs)")
    (auto simp: bin_index_def js_of_nat_def minus_jsnum_def Math_min_def split: if_splits)

lemma bin_index_never_extends:
  assumes "40 \<le> k"
  shows "bin_index st 40 bs s \<noteq> js_of_nat k"
  using bin_index_at_most_39 [of st bs s "real k"] assms by (auto simp: js_of_nat_def)

lemma fraction_index:
  assumes "0 \<le> c" "c < 1" "0 < n"
  shows "is_index (Math_floor (js_of_nat n * Fin c)) n"
proof -
  have "real n * c < real n" using assms by simp
  then have "\<lfloor>real n * c\<rfloor> < int n" by (simp add: floor_less_iff)
  moreover have "0 \<le> \<lfloor>real n * c\<rfloor>" using assms(1) by simp
  ultimately have "is_index (Fin (of_int \<lfloor>real n * c\<rfloor>)) n"
    by (rule is_index_of_int [rotated])
  then show ?thesis by (simp add: js_of_nat_def)
qed

lemma percentile_reads_in_range:
  assumes "vals \<noteq> []"
  shows "is_index (Math_floor (js_of_nat (length vals) * Fin 0.5)) (length vals)"
    and "is_index (Math_floor (js_of_nat (length vals) * Fin 0.1)) (length vals)"
    and "is_index (Math_floor (js_of_nat (length vals) * Fin 0.9)) (length vals)"
  using assms by (auto intro!: fraction_index)

section \<open>The statistics and the distribution in binary64: further facts\<close>

text \<open>
  What was shown above of the statistics and the distribution in exact arithmetic holds
  as well with every operation rounded: the statistics leave the arrays of the store as
  they were and allocate the sorted copy, the positive fraction of the simulations is
  100, and when \<open>max = min\<close> the distribution returns no bin.
\<close>

lemma stats_fl_keeps_simulations:
  fixes h :: store
  assumes "a < length h" and "stats_fl rnd a h = (r, h')"
  shows "h' ! a = h ! a \<and> (\<forall>b<length h. h' ! b = h ! b) \<and> length h' = Suc (length h) \<and>
         h' ! length h = js_sort (\<lambda>x y. fl_sub rnd (npv x) (npv y)) (h ! a) \<and>
         scatter (h' ! a) = scatter (h ! a)"
proof -
  have h': "h' = h @ [js_sort (\<lambda>x y. fl_sub rnd (npv x) (npv y)) (h ! a)]"
    using assms by (simp add: stats_store_fl)
  show ?thesis
    using assms(1) by (simp add: h' nth_append)
qed

lemma positive_fraction_binary64:
  assumes "scenario \<in> set recognized"
    and "Math_random_draws random" and "cos_nonzero_at_zero_draws random"
  shows "\<exists>results st h'. simulations scenario random = Inr results \<and>
           stats_fl binary64 0 [results] = (Inr st, h') \<and> positive st = Fin 100"
proof -
  let ?cmp = "\<lambda>x y. fl_sub binary64 (npv x) (npv y)"
  obtain results where res: "simulations scenario random = Inr results"
    and len: "length results = 10000"
    and rng: "\<forall>s \<in> set results. num_ge (npv s) (Fin 50)"
    using simulations_range [OF assms] by blast
  let ?vals = "map npv (js_sort ?cmp results)"
  have "length ?vals \<noteq> 0" using len by simp
  then obtain v vs where vals: "?vals = v # vs"
    by (cases ?vals) simp_all
  have all: "filter (\<lambda>s. num_gt (npv s) (Fin 0)) results = results"
    using rng by (simp add: num_ge_50_positive)
  have one: "fl_div binary64 (js_of_nat 10000) (js_of_nat 10000) = Fin 1"
    by (simp add: js_of_nat_def)
  have "\<exists>st. stats_fields_fl binary64 results (v # vs) = Inr st \<and>
      positive st = fl_mul binary64
        (fl_div binary64 (js_of_nat (length (filter (\<lambda>s. num_gt (npv s) (Fin 0)) results)))
           (js_of_nat (length results))) (Fin 100)"
    by (simp add: stats_fields_fl_def Let_def)
  then obtain st where st: "stats_fields_fl binary64 results (v # vs) = Inr st"
    and pos: "positive st = fl_mul binary64 (fl_div binary64 (js_of_nat 10000) (js_of_nat 10000)) (Fin 100)"
    by (auto simp: all len)
  have "positive st = Fin 100" by (simp add: pos one)
  moreover have "stats_fl binary64 0 [results] = (Inr st, [results, js_sort ?cmp results])"
    using st vals by (simp add: stats_store_fl)
  ultimately show ?thesis using res by blast
qed

lemma degenerate_index_fl:
  assumes "Math_min_spread vals = m" "Math_max_spread vals = m"
    and "min_v st = m" "max_v st = m" "npv s \<in> set vals"
  shows "bin_index_fl binary64 st 40
           (fl_div binary64 (fl_sub binary64 (max_v st) (min_v st)) (js_of_nat 40)) s = NaN"
proof (cases "m = NaN")
  case True
  then show ?thesis by (simp add: bin_index_fl_def assms(3,4) fl_sub_def Math_min_def)
next
  case False
  have lo: "npv s \<noteq> NaN \<and> \<not> num_lt (npv s) m"
    using foldl_Math_min_lower [of PInf vals] assms(1,5) False
    by (auto simp: Math_min_spread_def)
  have hi: "\<not> num_lt m (npv s)"
    using foldl_Math_max_upper [of NInf vals] assms(2,5) False
    by (auto simp: Math_max_spread_def)
  have "npv s = m"
    using num_lt_antisym [of "npv s" m] lo hi False by simp
  then show ?thesis
    by (cases m) (simp_all add: bin_index_fl_def assms(3,4) fl_sub_def js_of_nat_def Math_min_def)
qed

lemma distribution_fl_no_index:
  assumes "\<forall>s \<in> set sims. bin_index_fl binary64 st 40
             (fl_div binary64 (fl_sub binary64 (max_v st) (min_v st)) (js_of_nat 40)) s = NaN"
    and "sims \<noteq> []"
  shows "distribution_fl binary64 sims st = Inr []"
proof -
  have "bin_counts_fl sims st = replicate 40 0"
    unfolding bin_counts_fl_def
    by (rule foldl_dist_incr_none) (simp add: assms(1) is_index_def)
  moreover have "\<not> num_gt (bin_y (mk_bin_fl st (length sims) 0 i)) (Fin 0)" for i
    using assms(2) by (simp add: mk_bin_fl_def percent_fl_0 num_gt_def)
  ultimately show ?thesis
    by (auto simp: distribution_fl_counts filter_empty_conv dest!: set_zip_leftD)
qed

lemma distribution_fl_degenerate:
  fixes h :: store
  assumes "a < length h" and "stats_fl binary64 a h = (Inr st, h')" and "max_v st = min_v st"
  shows "distribution_fl binary64 (h' ! a) st = Inr []"
proof -
  let ?vals = "map npv (js_sort (\<lambda>x y. fl_sub binary64 (npv x) (npv y)) (h ! a))"
  note st = stats_fl_Inr [OF assms(1,2)]
  have "bin_index_fl binary64 st 40
          (fl_div binary64 (fl_sub binary64 (max_v st) (min_v st)) (js_of_nat 40)) s = NaN"
    if "s \<in> set (h ! a)" for s
  proof (rule degenerate_index_fl [of ?vals "min_v st"])
    show "Math_min_spread ?vals = min_v st" by (simp only: st(3))
    show "Math_max_spread ?vals = min_v st" by (simp only: st(4) [symmetric] assms(3))
    show "max_v st = min_v st" by (rule assms(3))
    show "npv s \<in> set ?vals" using that by simp
  qed simp
  then show ?thesis
    using distribution_fl_no_index [of "h ! a" st] st(1,2) by simp
qed

end
